theory Spec2Isabelle
  imports Main "HOL-Library.Word"
begin

unbundle bit_operations_syntax

section \<open>Bytes, errors and the standard library\<close>

text \<open>
  A Go \<open>string\<close> and a Go \<open>[]byte\<close> are sequences of bytes: both are modelled by
  \<^typ>\<open>string\<close>, whose characters are bytes. The record delimiter of the format is the
  byte \<open>0x00\<close>.
\<close>

abbreviation NUL :: char where
  "NUL \<equiv> CHR 0x00"

text \<open>
  Every error value the package creates or passes on. \<open>EOF\<close> and \<open>ErrUnexpectedEOF\<close>
  are \<open>io.EOF\<close> and \<open>io.ErrUnexpectedEOF\<close>; the next constructors are the errors the
  package builds with \<open>errors.New\<close> and \<open>fmt.Errorf\<close>, named after their message;
  the last ones are the errors of \<open>encoding/json\<close>, \<open>strconv\<close> and \<open>compress/gzip\<close>.
\<close>

datatype error =
    EOF
  | ErrUnexpectedEOF
  | ErrWriteInterrupted
  | ErrClosed                 \<comment> \<open>filestream closed\<close>
  | ErrOpenBeforeFinish       \<comment> \<open>attempted to open a file stream before finishing the previous\<close>
  | ErrWrongFile              \<comment> \<open>writing to file that has already been closed\<close>
  | ErrAlreadyStreaming       \<comment> \<open>attempted to write another file while one is already streaming\<close>
  | ErrIllegalPath            \<comment> \<open>illegal null character in file path\<close>
  | ErrNextBeforeFinish       \<comment> \<open>requested next file before finishing previous\<close>
  | ErrExcessData             \<comment> \<open>excess data\<close>
  | ErrDirBody string         \<comment> \<open>expected empty body for directory ... but got body\<close>
  | ErrVersion int            \<comment> \<open>filestream v... format not supported\<close>
  | ErrUnsupportedCompression \<comment> \<open>unsupported compression algorithm\<close>
  | ErrJSON                   \<comment> \<open>an error of json.Unmarshal\<close>
  | ErrSyntax string          \<comment> \<open>strconv.Atoi: invalid syntax\<close>
  | ErrRange string           \<comment> \<open>strconv.Atoi: value out of range\<close>
  | ErrGzip                   \<comment> \<open>an error of compress/gzip\<close>

text \<open>
  A call either returns or panics (a slice bound out of range, a nil pointer, an empty copy
  buffer).
\<close>

datatype 'a outcome = Return 'a | Panic

subsection \<open>headers.go\<close>

record streamHeader =
  hVersion :: int
  hCompression :: string

record fileHeader =
  hPath :: string
  hUser :: string
  hGroup :: string
  hMode :: "32 word"

subsection \<open>The libraries the package calls\<close>

text \<open>
  \<open>encoding/json\<close>, \<open>compress/gzip\<close> and \<open>lz4\<close> are not part of the repository. They
  are parameters of the model:
  \<^item> \<open>encStreamHeader\<close>, \<open>encFileHeader\<close>: the bytes \<open>json.Encoder.Encode\<close> writes for a
    header (the JSON text and the newline that \<open>Encode\<close> appends);
  \<^item> \<open>decStreamHeader\<close>, \<open>decFileHeader\<close>: \<open>json.Unmarshal\<close> into a zero header,
    \<open>None\<close> when it returns an error;
  \<^item> \<open>gzipLevelOk\<close>: whether \<open>gzip.NewWriterLevel\<close> accepts the level;
  \<^item> \<open>gzipZ level\<close>, \<open>lz4Z level\<close>: the bytes a compressor has written to its
    destination once it is closed, from the bytes written into it;
  \<^item> \<open>gunzip\<close>: \<open>gzip.NewReader\<close> on the rest of the source, an error or the
    decompressed bytes together with the result of closing the decompressor;
    \<open>unlz4\<close>: the bytes the lz4 reader delivers.
  What a theorem needs of them is a hypothesis of that theorem.
\<close>

record lib =
  encStreamHeader :: "streamHeader \<Rightarrow> string"
  decStreamHeader :: "string \<Rightarrow> streamHeader option"
  encFileHeader :: "fileHeader \<Rightarrow> string"
  decFileHeader :: "string \<Rightarrow> fileHeader option"
  gzipLevelOk :: "int \<Rightarrow> bool"
  gzipZ :: "int \<Rightarrow> string \<Rightarrow> string"
  lz4Z :: "int \<Rightarrow> string \<Rightarrow> string"
  gunzip :: "string \<Rightarrow> error + string \<times> error option"
  unlz4 :: "string \<Rightarrow> string"

subsection \<open>strconv.Itoa and strconv.Atoi\<close>

text \<open>The decimal digits of a non-negative \<open>int\<close>, most significant first.\<close>

definition digit :: "int \<Rightarrow> char" where
  "digit d = ''0123456789'' ! nat d"

function digits :: "int \<Rightarrow> string" where
  "digits n = (if n < 10 then [digit n] else digits (n div 10) @ [digit (n mod 10)])"
  by pat_completeness auto
termination
  by (relation "measure nat") auto

declare digits.simps [simp del]

definition Itoa :: "int \<Rightarrow> string" where
  "Itoa i = (if i < 0 then CHR ''-'' # digits (- i) else digits i)"

definition digit_val :: "char \<Rightarrow> int option" where
  "digit_val c =
     (let n = (of_char c :: int) in if 48 \<le> n \<and> n \<le> 57 then Some (n - 48) else None)"

text \<open>The value of a string of decimal digits, read from the left with accumulator \<open>acc\<close>.\<close>

fun digits_val :: "int \<Rightarrow> string \<Rightarrow> int option" where
  "digits_val acc [] = Some acc"
| "digits_val acc (c # cs) =
     (case digit_val c of None \<Rightarrow> None | Some d \<Rightarrow> digits_val (acc * 10 + d) cs)"

text \<open>
  \<open>strconv.Atoi\<close> for a 64-bit \<open>int\<close>: an optional sign, then at least one decimal
  digit and nothing else; a value outside the range of \<open>int\<close> is a range error.
\<close>

definition Atoi :: "string \<Rightarrow> error + int" where
  "Atoi s =
     (let (neg, ds) =
        (case s of
           [] \<Rightarrow> (False, [])
         | c # t \<Rightarrow> if c = CHR ''-'' then (True, t)
                    else if c = CHR ''+'' then (False, t) else (False, s))
      in if ds = [] then Inl (ErrSyntax s)
         else case digits_val 0 ds of
                None \<Rightarrow> Inl (ErrSyntax s)
              | Some n \<Rightarrow>
                  let v = (if neg then - n else n)
                  in if v < - (2 ^ 63) \<or> 2 ^ 63 \<le> v then Inl (ErrRange s) else Inr v)"

section \<open>encode.go: the Writer\<close>

record StreamOptions =
  Compression :: string
  CompressionLevel :: int

record FileOptions =
  Permissions :: "32 word"
  User :: string
  Group :: string

text \<open>\<open>os.ModeDir\<close> is the top bit of the 32-bit \<open>os.FileMode\<close>.\<close>

definition ModeDir :: "32 word" where
  "ModeDir = push_bit 31 1"

definition IsDirMode :: "32 word \<Rightarrow> bool" where
  "IsDirMode m = (m AND ModeDir \<noteq> 0)"

text \<open>
  The compressor that \<open>compress\<close> builds is identified by its algorithm and level.
  \<open>gzip.NewWriter\<close> is \<open>gzip.NewWriterLevel\<close> at \<open>gzip.DefaultCompression = -1\<close>.
\<close>

datatype compressor = Gzip int | Lz4 int

definition compress :: "lib \<Rightarrow> string \<Rightarrow> int \<Rightarrow> error + compressor" where
  "compress L algo level =
     (if algo = ''gzip'' then
        (if level = 0 then Inr (Gzip (- 1))
         else if gzipLevelOk L level then Inr (Gzip level) else Inl ErrGzip)
      else if algo = ''lz4'' then Inr (Lz4 level)
      else Inl ErrUnsupportedCompression)"

fun compressed :: "lib \<Rightarrow> compressor \<Rightarrow> string \<Rightarrow> string" where
  "compressed L (Gzip level) s = gzipZ L level s"
| "compressed L (Lz4 level) s = lz4Z L level s"

text \<open>
  The \<open>Writer\<close>. Its buffered writer (a \<open>bufio.Writer\<close> of the default size) is
  modelled by \<open>w\<close>, the bytes written through it to its current destination, in order, and
  \<open>held\<close>, the number of those bytes, the last ones, that are still in its buffer: the
  destination has received the others. The in-memory sink never fails. \<open>pre\<close> holds what
  reached the sink before the compressor was attached (the cleartext stream header),
  \<open>closer\<close> the compressor.
\<close>

record Writer =
  curFile :: "64 word"
  writing :: bool
  w :: string
  held :: nat
  closer :: "compressor option"
  closed :: bool
  pre :: string

text \<open>
  \<open>bufio.Writer\<close>: the size of the buffer, and the number of bytes in the buffer after
  \<open>Write\<close>, \<open>WriteString\<close> or \<open>WriteByte\<close> of \<open>n\<close> bytes onto \<open>b\<close> buffered bytes.
  Bytes that fit are buffered. Otherwise a write into an empty buffer goes to the destination
  directly; a write into a buffer that holds bytes fills it and flushes it, and the rest is
  buffered, or goes to the destination directly when it is larger than the buffer.
  \<open>Flush\<close> hands the buffer to the destination.
\<close>

definition bufSize :: nat where
  "bufSize = 4096"

definition hold :: "nat \<Rightarrow> nat \<Rightarrow> nat" where
  "hold b n =
     (if n \<le> bufSize - b then b + n
      else if b = 0 then 0
      else if bufSize < n - (bufSize - b) then 0
      else n - (bufSize - b))"

definition bufWrite :: "Writer \<Rightarrow> string \<Rightarrow> Writer" where
  "bufWrite wr p = wr\<lparr>w := w wr @ p, held := hold (held wr) (length p)\<rparr>"

definition Flush :: "Writer \<Rightarrow> Writer" where
  "Flush wr = wr\<lparr>held := 0\<rparr>"

text \<open>The bytes that the buffered writer has handed to its destination.\<close>

definition delivered :: "Writer \<Rightarrow> string" where
  "delivered wr = take (length (w wr) - held wr) (w wr)"

definition NewWriter :: "lib \<Rightarrow> StreamOptions \<Rightarrow> error + Writer" where
  "NewWriter L opts =
     (case (if Compression opts \<noteq> []
            then (case compress L (Compression opts) (CompressionLevel opts) of
                    Inl e \<Rightarrow> Inl e | Inr z \<Rightarrow> Inr (Some z))
            else Inr None) of
        Inl e \<Rightarrow> Inl e
      | Inr z \<Rightarrow>
          let wr = bufWrite
                     (bufWrite \<lparr>curFile = 0, writing = False, w = [], held = 0, closer = z,
                                closed = False, pre = []\<rparr>
                        (encStreamHeader L \<lparr>hVersion = 0, hCompression = Compression opts\<rparr>))
                     [NUL]
          in Inr (if Compression opts \<noteq> []
                  then (Flush wr)\<lparr>pre := delivered (Flush wr), w := []\<rparr>
                  else wr))"

text \<open>
  The bytes in the sink: the cleartext part, then what the buffered writer has handed to its
  destination, which is the sink itself or, when a compressor is attached, the compressor.
  The bytes of a compressor are those that it has written once it is closed: with a
  compressor attached this is the sink after a successful \<open>Close\<close> only.
\<close>

definition sink :: "lib \<Rightarrow> Writer \<Rightarrow> string" where
  "sink L wr =
     pre wr @ (case closer wr of None \<Rightarrow> delivered wr | Some z \<Rightarrow> compressed L z (delivered wr))"

record fileWriter =
  fileNo :: "64 word"
  started :: bool
  hdr :: fileHeader

definition File :: "Writer \<Rightarrow> string \<Rightarrow> FileOptions \<Rightarrow> (error + fileWriter) \<times> Writer" where
  "File wr path opts =
     (if writing wr then (Inl ErrOpenBeforeFinish, wr)
      else
        let wr' = wr\<lparr>writing := True, curFile := curFile wr + 1\<rparr>
        in (Inr \<lparr>fileNo = curFile wr', started = False,
                 hdr = \<lparr>hPath = path, hUser = User opts, hGroup = Group opts,
                        hMode = Permissions opts\<rparr>\<rparr>, wr'))"

definition Writer_write :: "Writer \<Rightarrow> 64 word \<Rightarrow> string \<Rightarrow> (nat \<times> error option) \<times> Writer" where
  "Writer_write wr file dat =
     (if closed wr then ((0, Some ErrClosed), wr)
      else if file \<noteq> curFile wr \<or> \<not> writing wr then ((0, Some ErrWrongFile), wr)
      else ((length dat, None),
            bufWrite (bufWrite (bufWrite wr (Itoa (int (length dat)))) [NUL]) dat))"

definition startFile :: "lib \<Rightarrow> Writer \<Rightarrow> fileHeader \<Rightarrow> error option \<times> Writer" where
  "startFile L wr h =
     (if closed wr then (Some ErrClosed, wr)
      else if NUL \<in> set (hPath h) then (Some ErrIllegalPath, wr)
      else (None, bufWrite (bufWrite wr (encFileHeader L h)) [NUL]))"

text \<open>
  \<open>fileWriter.Write\<close>: the handle and the \<open>Writer\<close> it points to are both updated.
  \<open>started\<close> is set before \<open>startFile\<close> is called.
\<close>

definition Write ::
  "lib \<Rightarrow> fileWriter \<Rightarrow> Writer \<Rightarrow> string \<Rightarrow> (nat \<times> error option) \<times> fileWriter \<times> Writer" where
  "Write L fw wr dat =
     (case (if \<not> started fw then
              (case startFile L wr (hdr fw) of
                 (Some e, wr') \<Rightarrow> Inl ((0, Some e), fw\<lparr>started := True\<rparr>, wr')
               | (None, wr') \<Rightarrow> Inr (fw\<lparr>started := True\<rparr>, wr'))
            else Inr (fw, wr)) of
        Inl res \<Rightarrow> res
      | Inr (fw', wr') \<Rightarrow>
          if length dat = 0 then ((0, None), fw', wr')
          else (case Writer_write wr' (fileNo fw') dat of (res, wr'') \<Rightarrow> (res, fw', wr'')))"

text \<open>\<open>fileWriter.Close\<close>.\<close>

definition CloseFile :: "lib \<Rightarrow> fileWriter \<Rightarrow> Writer \<Rightarrow> error option \<times> fileWriter \<times> Writer" where
  "CloseFile L fw wr =
     (case (if \<not> started fw then
              (case Write L fw wr [] of
                 ((n, Some e), fw', wr') \<Rightarrow> Inl (Some e, fw', wr')
               | ((n, None), fw', wr') \<Rightarrow> Inr (fw', wr'))
            else Inr (fw, wr)) of
        Inl res \<Rightarrow> res
      | Inr (fw', wr') \<Rightarrow>
          (case Writer_write wr' (fileNo fw') [] of
             ((n, Some e), wr'') \<Rightarrow> (Some e, fw', wr'')
           | ((n, None), wr'') \<Rightarrow> (None, fw', wr''\<lparr>writing := False\<rparr>)))"

definition Directory :: "lib \<Rightarrow> Writer \<Rightarrow> string \<Rightarrow> FileOptions \<Rightarrow> error option \<times> Writer" where
  "Directory L wr path opts =
     (case File wr path (opts\<lparr>Permissions := Permissions opts OR ModeDir\<rparr>) of
        (Inl e, wr') \<Rightarrow> (Some e, wr')
      | (Inr f, wr') \<Rightarrow> (case CloseFile L f wr' of (e, f', wr'') \<Rightarrow> (e, wr'')))"

text \<open>The header that ends the stream: the path is the single byte \<open>0x00\<close>.\<close>

definition terminator :: fileHeader where
  "terminator = \<lparr>hPath = [NUL], hUser = [], hGroup = [], hMode = 0\<rparr>"

text \<open>
  \<open>Writer.Close\<close>. With an entry open it returns before anything is written or flushed.
  Otherwise it writes the terminator header, flushes the buffered writer and closes the
  compressor, which completes the sink that \<^const>\<open>sink\<close> reads off the closed \<open>Writer\<close>.
\<close>

definition Close :: "lib \<Rightarrow> Writer \<Rightarrow> error option \<times> Writer" where
  "Close L wr =
     (let wr1 = wr\<lparr>closed := True\<rparr>
      in if writing wr1 then (Some ErrWriteInterrupted, wr1)
         else (None, Flush (bufWrite (bufWrite wr1 (encFileHeader L terminator)) [NUL])))"

section \<open>The Writer with the deferred start\<close>

text \<open>
  The repository holds a second version of the Writer, in which \<open>File\<close> cannot fail and
  changes nothing: \<open>startFile\<close> checks that no entry is open, counts the entry and sets
  \<open>writing\<close>, and a handle is not started as long as its \<open>fileNo\<close> is \<open>0\<close>.
  \<open>NewWriter\<close>, \<open>write\<close> and \<open>Writer.Close\<close> are the same in both versions.
\<close>

record fileWriterD =
  fileNoD :: "64 word"
  hdrD :: fileHeader

definition FileD :: "Writer \<Rightarrow> string \<Rightarrow> FileOptions \<Rightarrow> fileWriterD" where
  "FileD wr path opts =
     \<lparr>fileNoD = 0,
      hdrD = \<lparr>hPath = path, hUser = User opts, hGroup = Group opts, hMode = Permissions opts\<rparr>\<rparr>"

definition startFileD :: "lib \<Rightarrow> Writer \<Rightarrow> fileHeader \<Rightarrow> (error + 64 word) \<times> Writer" where
  "startFileD L wr h =
     (if closed wr then (Inl ErrClosed, wr)
      else if writing wr then (Inl ErrAlreadyStreaming, wr)
      else if NUL \<in> set (hPath h) then (Inl ErrIllegalPath, wr)
      else
        let wr' = wr\<lparr>curFile := curFile wr + 1, writing := True\<rparr>
        in (Inr (curFile wr'), bufWrite (bufWrite wr' (encFileHeader L h)) [NUL]))"

definition WriteD ::
  "lib \<Rightarrow> fileWriterD \<Rightarrow> Writer \<Rightarrow> string \<Rightarrow> (nat \<times> error option) \<times> fileWriterD \<times> Writer" where
  "WriteD L fw wr dat =
     (case (if fileNoD fw = 0 then
              (case startFileD L wr (hdrD fw) of
                 (Inl e, wr') \<Rightarrow> Inl ((0, Some e), fw, wr')
               | (Inr no, wr') \<Rightarrow> Inr (fw\<lparr>fileNoD := no\<rparr>, wr'))
            else Inr (fw, wr)) of
        Inl res \<Rightarrow> res
      | Inr (fw', wr') \<Rightarrow>
          if length dat = 0 then ((0, None), fw', wr')
          else (case Writer_write wr' (fileNoD fw') dat of (res, wr'') \<Rightarrow> (res, fw', wr'')))"

definition CloseFileD ::
  "lib \<Rightarrow> fileWriterD \<Rightarrow> Writer \<Rightarrow> error option \<times> fileWriterD \<times> Writer" where
  "CloseFileD L fw wr =
     (case (if fileNoD fw = 0 then
              (case WriteD L fw wr [] of
                 ((n, Some e), fw', wr') \<Rightarrow> Inl (Some e, fw', wr')
               | ((n, None), fw', wr') \<Rightarrow> Inr (fw', wr'))
            else Inr (fw, wr)) of
        Inl res \<Rightarrow> res
      | Inr (fw', wr') \<Rightarrow>
          (case Writer_write wr' (fileNoD fw') [] of
             ((n, Some e), wr'') \<Rightarrow> (Some e, fw', wr'')
           | ((n, None), wr'') \<Rightarrow> (None, fw', wr''\<lparr>writing := False\<rparr>)))"

definition DirectoryD :: "lib \<Rightarrow> Writer \<Rightarrow> string \<Rightarrow> FileOptions \<Rightarrow> error option \<times> Writer" where
  "DirectoryD L wr path opts =
     (case CloseFileD L (FileD wr path (opts\<lparr>Permissions := Permissions opts OR ModeDir\<rparr>)) wr of
        (e, f', wr') \<Rightarrow> (e, wr'))"

section \<open>The Reader\<close>

subsection \<open>bufio.Reader over the decompressed stream\<close>

text \<open>
  The buffered reader is modelled by the bytes it has not delivered yet.
  \<open>ReadString(0x00)\<close> returns the bytes up to and including the first delimiter; when the
  source ends before a delimiter it returns what was left together with \<open>io.EOF\<close>.
\<close>

definition ReadString :: "string \<Rightarrow> (string \<times> error option) \<times> string" where
  "ReadString s =
     (if NUL \<in> set s
      then ((takeWhile (\<lambda>c. c \<noteq> NUL) s @ [NUL], None), tl (dropWhile (\<lambda>c. c \<noteq> NUL) s))
      else ((s, Some EOF), []))"

text \<open>
  \<open>Read\<close> into a buffer of \<open>k\<close> bytes: nothing and no error for an empty buffer,
  \<open>io.EOF\<close> at the end of the source, and the next bytes otherwise (as many as fit, for a
  source held in memory).
\<close>

definition streamRead :: "string \<Rightarrow> nat \<Rightarrow> (string \<times> error option) \<times> string" where
  "streamRead s k =
     (if k = 0 then (([], None), s)
      else if s = [] then (([], Some EOF), [])
      else ((take k s, None), drop k s))"

definition unexpected :: "error \<Rightarrow> error" where
  "unexpected e = (if e = EOF then ErrUnexpectedEOF else e)"

subsection \<open>Reader and FileReader\<close>

text \<open>
  \<open>rcloser\<close> is \<open>None\<close> for a nil closer and \<open>Some c\<close> for a closer whose \<open>Close\<close>
  returns \<open>c\<close>. \<open>fr\<close> holds the \<open>FileReader\<close> that \<open>r.fr\<close> points to.
\<close>

record FileReader =
  rhdr :: fileHeader
  rdone :: bool
  chunkRem :: int

record Reader =
  ready :: bool
  rclosed :: bool
  stream :: string
  rcloser :: "error option option"
  fr :: "FileReader option"
  err :: "error option"

definition fmtVersion :: int where
  "fmtVersion = 0"

definition decompress :: "lib \<Rightarrow> string \<Rightarrow> string \<Rightarrow> error + string \<times> error option" where
  "decompress L algo src =
     (if algo = ''gzip'' then gunzip L src
      else if algo = ''lz4'' then Inr (unlz4 L src, None)
      else Inl ErrUnsupportedCompression)"

definition NewReader :: "lib \<Rightarrow> string \<Rightarrow> error + Reader" where
  "NewReader L src =
     (case ReadString src of
        ((jd, Some e), br) \<Rightarrow> Inl e
      | ((jd, None), br) \<Rightarrow>
          (case decStreamHeader L (butlast jd) of
             None \<Rightarrow> Inl ErrJSON
           | Some h \<Rightarrow>
               if hVersion h > fmtVersion then Inl (ErrVersion (hVersion h))
               else if hCompression h \<noteq> [] then
                 (case decompress L (hCompression h) br of
                    Inl e \<Rightarrow> Inl e
                  | Inr (zr, c) \<Rightarrow>
                      Inr \<lparr>ready = True, rclosed = False, stream = zr, rcloser = Some c,
                           fr = None, err = None\<rparr>)
               else Inr \<lparr>ready = True, rclosed = False, stream = br, rcloser = None,
                         fr = None, err = None\<rparr>))"

definition Path :: "FileReader \<Rightarrow> string" where
  "Path f = hPath (rhdr f)"

definition IsDir :: "FileReader \<Rightarrow> bool" where
  "IsDir f = IsDirMode (hMode (rhdr f))"

definition Opts :: "FileReader \<Rightarrow> FileOptions" where
  "Opts f = \<lparr>Permissions = hMode (rhdr f), User = hUser (rhdr f), Group = hGroup (rhdr f)\<rparr>"

text \<open>
  \<open>FileReader.Read\<close> with a destination of \<open>k\<close> bytes. It returns the bytes it stored and
  the error, and updates the \<open>FileReader\<close> and the \<open>Reader\<close> behind it. Slicing the
  destination to a negative length panics.
\<close>

definition Read ::
  "FileReader \<Rightarrow> Reader \<Rightarrow> nat \<Rightarrow> (string \<times> error option) outcome \<times> FileReader \<times> Reader" where
  "Read f r k =
     (if rdone f then (Return ([], Some EOF), f, r)
      else
        case (if chunkRem f = 0 then
                (case ReadString (stream r) of
                   ((lstr, Some e), s') \<Rightarrow>
                     Inl (Return ([], Some (unexpected e)), f, r\<lparr>stream := s'\<rparr>)
                 | ((lstr, None), s') \<Rightarrow>
                     (case Atoi (butlast lstr) of
                        Inl e \<Rightarrow> Inl (Return ([], Some e), f, r\<lparr>stream := s'\<rparr>)
                      | Inr l \<Rightarrow>
                          if l = 0
                          then Inl (Return ([], Some EOF), f\<lparr>rdone := True\<rparr>,
                                    r\<lparr>stream := s', ready := True\<rparr>)
                          else Inr (f\<lparr>chunkRem := l\<rparr>, r\<lparr>stream := s'\<rparr>)))
              else Inr (f, r)) of
          Inl res \<Rightarrow> res
        | Inr (f1, r1) \<Rightarrow>
            let n = (if chunkRem f1 > int k then int k else chunkRem f1)
            in if n < 0 then (Panic, f1, r1)
               else
                 (case streamRead (stream r1) (nat n) of
                    ((d, e), s') \<Rightarrow>
                      (Return (d, map_option unexpected e),
                       f1\<lparr>chunkRem := chunkRem f1 - int (length d)\<rparr>, r1\<lparr>stream := s'\<rparr>)))"

text \<open>
  \<open>Reader.Next\<close>. The deferred function clears \<open>r.fr\<close> whenever \<open>r.err\<close> is set.
\<close>

definition Next :: "lib \<Rightarrow> Reader \<Rightarrow> bool outcome \<times> Reader" where
  "Next L r0 =
     (let r = r0\<lparr>fr := None, err := None\<rparr>
      in if rclosed r then (Return False, r)
         else if \<not> ready r then (Return False, r\<lparr>err := Some ErrNextBeforeFinish\<rparr>)
         else
           let r = r\<lparr>ready := False\<rparr>
           in case ReadString (stream r) of
                ((jd, Some e), s') \<Rightarrow>
                  (Return False, r\<lparr>stream := s', err := Some (unexpected e)\<rparr>)
              | ((jd, None), s') \<Rightarrow>
                  (case decFileHeader L (butlast jd) of
                     None \<Rightarrow> (Return False, r\<lparr>stream := s', err := Some ErrJSON\<rparr>)
                   | Some h \<Rightarrow>
                       if hPath h = [NUL] then
                         (case streamRead s' 1 of
                            ((d, e), s'') \<Rightarrow>
                              let r1 = r\<lparr>rclosed := True, stream := s''\<rparr>
                              in if e \<noteq> Some EOF
                                 then (Return False, r1\<lparr>err := Some ErrExcessData\<rparr>)
                                 else
                                   (case rcloser r1 of
                                      Some (Some ce) \<Rightarrow>
                                        (Return False, r1\<lparr>err := Some (unexpected ce)\<rparr>)
                                    | _ \<Rightarrow> (Return False, r1)))
                       else
                         let f = \<lparr>rhdr = h, rdone = False, chunkRem = 0\<rparr>;
                             r1 = r\<lparr>stream := s', fr := Some f\<rparr>
                         in if IsDir f then
                              (case Read f r1 0 of
                                 (Panic, f', r2) \<Rightarrow> (Panic, r2\<lparr>fr := Some f'\<rparr>)
                               | (Return (d, None), f', r2) \<Rightarrow>
                                   (Return False,
                                    r2\<lparr>fr := None, err := Some (ErrDirBody (hPath h))\<rparr>)
                               | (Return (d, Some e), f', r2) \<Rightarrow>
                                   if e \<noteq> EOF
                                   then (Return False, r2\<lparr>fr := None, err := Some e\<rparr>)
                                   else (Return True, r2\<lparr>fr := Some f'\<rparr>))
                            else (Return True, r1)))"

definition Err :: "Reader \<Rightarrow> error option" where
  "Err r = err r"

text \<open>
  Reading through the handle that \<open>r.File()\<close> returns: \<open>Read\<close> on the \<open>FileReader\<close>
  that \<open>r.fr\<close> points to, which panics on a nil pointer.
\<close>

definition FileRead :: "Reader \<Rightarrow> nat \<Rightarrow> (string \<times> error option) outcome \<times> Reader" where
  "FileRead r k =
     (case fr r of
        None \<Rightarrow> (Panic, r)
      | Some f \<Rightarrow> (case Read f r k of (res, f', r') \<Rightarrow> (res, r'\<lparr>fr := Some f'\<rparr>)))"

section \<open>Writing and reading a whole stream\<close>

subsection \<open>The write side of the round trip\<close>

text \<open>
  An entry to write, as in the table of \<open>TestRoundTrip\<close>: a path, whether it is a
  directory, the options, and for a file the byte slices handed to its successive
  \<open>Write\<close> calls.
\<close>

record entry =
  ePath :: string
  eDir :: bool
  eWrites :: "string list"
  eOpts :: FileOptions

text \<open>Successive \<open>Write\<close> calls on one handle, stopping at the first error.\<close>

fun WriteAll ::
  "lib \<Rightarrow> fileWriter \<Rightarrow> Writer \<Rightarrow> string list \<Rightarrow> error option \<times> fileWriter \<times> Writer" where
  "WriteAll L fw wr [] = (None, fw, wr)"
| "WriteAll L fw wr (d # ds) =
     (case Write L fw wr d of
        ((n, Some e), fw', wr') \<Rightarrow> (Some e, fw', wr')
      | ((n, None), fw', wr') \<Rightarrow> WriteAll L fw' wr' ds)"

text \<open>
  One entry: \<open>Directory\<close> for a directory; \<open>File\<close>, the \<open>Write\<close> calls and
  \<open>Close\<close> on the handle for a file.
\<close>

definition WriteEntry :: "lib \<Rightarrow> Writer \<Rightarrow> entry \<Rightarrow> error option \<times> Writer" where
  "WriteEntry L wr e =
     (if eDir e then Directory L wr (ePath e) (eOpts e)
      else
        case File wr (ePath e) (eOpts e) of
          (Inl er, wr1) \<Rightarrow> (Some er, wr1)
        | (Inr fw, wr1) \<Rightarrow>
            (case WriteAll L fw wr1 (eWrites e) of
               (Some er, fw', wr2) \<Rightarrow> (Some er, wr2)
             | (None, fw', wr2) \<Rightarrow>
                 (case CloseFile L fw' wr2 of (er, fw'', wr3) \<Rightarrow> (er, wr3))))"

fun WriteEntries :: "lib \<Rightarrow> Writer \<Rightarrow> entry list \<Rightarrow> error option \<times> Writer" where
  "WriteEntries L wr [] = (None, wr)"
| "WriteEntries L wr (e # es) =
     (case WriteEntry L wr e of
        (Some er, wr') \<Rightarrow> (Some er, wr')
      | (None, wr') \<Rightarrow> WriteEntries L wr' es)"

text \<open>The whole producer: \<open>NewWriter\<close>, the entries, \<open>Close\<close>; the result is the sink.\<close>

definition Encode :: "lib \<Rightarrow> StreamOptions \<Rightarrow> entry list \<Rightarrow> error + string" where
  "Encode L sopts es =
     (case NewWriter L sopts of
        Inl e \<Rightarrow> Inl e
      | Inr wr \<Rightarrow>
          (case WriteEntries L wr es of
             (Some e, wr') \<Rightarrow> Inl e
           | (None, wr') \<Rightarrow>
               (case Close L wr' of
                  (Some e, wr'') \<Rightarrow> Inl e
                | (None, wr'') \<Rightarrow> Inr (sink L wr''))))"

subsection \<open>The read side of the round trip\<close>

lemma ReadString_le: "ReadString s = (x, s') \<Longrightarrow> length s' \<le> length s"
  by (auto simp: ReadString_def split: if_splits
      intro: le_trans[OF diff_le_self length_dropWhile_le])

lemma ReadString_shorter: "ReadString s = ((l, None), s') \<Longrightarrow> length s' < length s"
proof -
  assume a: "ReadString s = ((l, None), s')"
  then have n: "NUL \<in> set s" and s': "s' = tl (dropWhile (\<lambda>c. c \<noteq> NUL) s)"
    by (auto simp: ReadString_def split: if_splits)
  from n have "dropWhile (\<lambda>c. c \<noteq> NUL) s \<noteq> []" by simp
  then have "length s' < length (dropWhile (\<lambda>c. c \<noteq> NUL) s)" using s' by simp
  also have "\<dots> \<le> length s" by (rule length_dropWhile_le)
  finally show ?thesis .
qed

lemma streamRead_le: "streamRead s k = (x, s') \<Longrightarrow> length s' \<le> length s"
  by (auto simp: streamRead_def split: if_splits)

lemma streamRead_shorter:
  "streamRead s k = ((d, None), s') \<Longrightarrow> 0 < k \<Longrightarrow> length s' < length s"
  by (auto simp: streamRead_def split: if_splits)

lemma Read_le: "Read f r k = (res, f', r') \<Longrightarrow> length (stream r') \<le> length (stream r)"
  unfolding Read_def
  by (auto simp: Let_def split: if_splits prod.splits option.splits sum.splits
      dest!: ReadString_le streamRead_le)

lemma Read_progress:
  "Read f r k = (Return (d, None), f', r') \<Longrightarrow> 0 < k \<Longrightarrow> length (stream r') < length (stream r)"
proof -
  assume a: "Read f r k = (Return (d, None), f', r')" and k: "0 < k"
  have nd: "\<not> rdone f" using a by (auto simp: Read_def)
  show ?thesis
  proof (cases "chunkRem f = 0")
    case True
    with a nd obtain lstr s' where rs: "ReadString (stream r) = ((lstr, None), s')"
      and sr: "length (stream r') \<le> length s'"
      by (auto simp: Read_def Let_def split: if_splits prod.splits option.splits sum.splits
          dest: streamRead_le)
    from ReadString_shorter[OF rs] sr show ?thesis by simp
  next
    case False
    with a nd have sr: "streamRead (stream r) (nat (if chunkRem f > int k then int k else chunkRem f)) = ((d, None), stream r')"
      and pos: "\<not> (if chunkRem f > int k then int k else chunkRem f) < 0"
      by (auto simp: Read_def Let_def split: if_splits prod.splits option.splits sum.splits)
    from pos False k have "0 < nat (if chunkRem f > int k then int k else chunkRem f)"
      by (auto split: if_splits)
    from streamRead_shorter[OF sr this] show ?thesis .
  qed
qed

text \<open>
  \<open>io.Copy\<close> from a \<open>FileReader\<close> with a buffer of \<open>k\<close> bytes: \<open>Read\<close> until an
  error, and \<open>io.EOF\<close> is the regular end. It returns the bytes copied and the error.
  An empty buffer panics, as in \<open>io.CopyBuffer\<close>.
\<close>

function Copy ::
  "nat \<Rightarrow> FileReader \<Rightarrow> Reader \<Rightarrow> (string \<times> error option) outcome \<times> FileReader \<times> Reader" where
  "Copy k f r =
     (if k = 0 then (Panic, f, r)
      else
        case Read f r k of
          (Panic, f', r') \<Rightarrow> (Panic, f', r')
        | (Return (d, Some e), f', r') \<Rightarrow>
            (Return (d, if e = EOF then None else Some e), f', r')
        | (Return (d, None), f', r') \<Rightarrow>
            (case Copy k f' r' of
               (Panic, f'', r'') \<Rightarrow> (Panic, f'', r'')
             | (Return (ds, e), f'', r'') \<Rightarrow> (Return (d @ ds, e), f'', r'')))"
  by pat_completeness auto
termination
  by (relation "measure (\<lambda>(k, f, r). length (stream r))") (auto dest: Read_progress[OF sym])

declare Copy.simps [simp del]

lemma Copy_le: "Copy k f r = (res, f', r') \<Longrightarrow> length (stream r') \<le> length (stream r)"
proof (induction k f r arbitrary: res f' r' rule: Copy.induct)
  case (1 k f r)
  show ?case
  proof (cases "k = 0")
    case True
    with "1.prems" show ?thesis by (simp add: Copy.simps)
  next
    case False
    obtain x f1 r1 where rd: "Read f r k = (x, f1, r1)" by (cases "Read f r k") auto
    note le1 = Read_le[OF rd]
    show ?thesis
    proof (cases "\<exists>d. x = Return (d, None)")
      case True
      then obtain d where x: "x = Return (d, None)" by blast
      obtain y f2 r2 where cp: "Copy k f1 r1 = (y, f2, r2)" by (cases "Copy k f1 r1") auto
      from rd x have rd': "(Return (d, None), f1, r1) = Read f r k" by simp
      have "length (stream r2) \<le> length (stream r1)"
        by (rule "1.IH"[OF False rd' refl refl refl refl cp])
      moreover from "1.prems" False rd x cp have "r' = r2"
        by (subst (asm) Copy.simps) (auto split: outcome.splits prod.splits)
      ultimately show ?thesis using le1 by simp
    next
      case False
      with "1.prems" \<open>k \<noteq> 0\<close> rd have "r' = r1"
        by (subst (asm) Copy.simps) (auto split: outcome.splits prod.splits option.splits)
      then show ?thesis using le1 by simp
    qed
  qed
qed

lemma Next_True_shorter:
  "Next L r = (Return True, r') \<Longrightarrow> length (stream r') < length (stream r)"
  unfolding Next_def
  by (auto simp: Let_def split: if_splits prod.splits option.splits outcome.splits
      dest!: ReadString_shorter Read_le)

text \<open>What the reading loop of \<open>TestRoundTrip\<close> collects for each entry.\<close>

record testFile =
  tPath :: string
  tDir :: bool
  tData :: string
  tOpts :: FileOptions

text \<open>
  The loop \<open>for r.Next() { io.Copy(&buf, r.File()); ... }\<close> followed by \<open>r.Err()\<close>:
  it returns the entries read and the error, the error of a failed copy ending the loop.
\<close>

function ReadFiles ::
  "lib \<Rightarrow> nat \<Rightarrow> Reader \<Rightarrow> (testFile list \<times> error option) outcome \<times> Reader" where
  "ReadFiles L k r =
     (case Next L r of
        (Panic, r1) \<Rightarrow> (Panic, r1)
      | (Return False, r1) \<Rightarrow> (Return ([], Err r1), r1)
      | (Return True, r1) \<Rightarrow>
          (case fr r1 of
             None \<Rightarrow> (Panic, r1)
           | Some f \<Rightarrow>
               (case Copy k f r1 of
                  (Panic, f', r2) \<Rightarrow> (Panic, r2\<lparr>fr := Some f'\<rparr>)
                | (Return (d, Some e), f', r2) \<Rightarrow> (Return ([], Some e), r2\<lparr>fr := Some f'\<rparr>)
                | (Return (d, None), f', r2) \<Rightarrow>
                    (case ReadFiles L k (r2\<lparr>fr := Some f'\<rparr>) of
                       (Panic, r3) \<Rightarrow> (Panic, r3)
                     | (Return (res, e), r3) \<Rightarrow>
                         (Return (\<lparr>tPath = Path f', tDir = IsDir f', tData = d,
                                   tOpts = Opts f'\<rparr> # res, e), r3)))))"
  by pat_completeness auto
termination
  by (relation "measure (\<lambda>(L, k, r). length (stream r))")
     (auto dest!: Next_True_shorter[OF sym] Copy_le[OF sym])

declare ReadFiles.simps [simp del]

text \<open>The whole consumer: \<open>NewReader\<close>, then the loop.\<close>

definition Decode :: "lib \<Rightarrow> nat \<Rightarrow> string \<Rightarrow> (testFile list \<times> error option) outcome" where
  "Decode L k src =
     (case NewReader L src of
        Inl e \<Rightarrow> Return ([], Some e)
      | Inr r \<Rightarrow> fst (ReadFiles L k r))"

text \<open>Successive \<open>Read\<close> calls through \<open>r.File()\<close>, with buffers of the sizes \<open>ks\<close>.\<close>

fun FileReads :: "Reader \<Rightarrow> nat list \<Rightarrow> Reader" where
  "FileReads r [] = r"
| "FileReads r (k # ks) = FileReads (snd (FileRead r k)) ks"

text \<open>The Reader after \<open>n\<close> successive \<open>Next\<close> calls.\<close>

fun Nexts :: "lib \<Rightarrow> nat \<Rightarrow> Reader \<Rightarrow> Reader" where
  "Nexts L 0 r = r"
| "Nexts L (Suc n) r = Nexts L n (snd (Next L r))"

section \<open>A reference instance of the libraries\<close>

text \<open>
  A concrete \<open>lib\<close>, for evaluating the model on concrete streams. Its header codec writes
  the JSON text that \<open>encoding/json\<close> writes for a header: the members in the order of the
  struct, \<open>omitempty\<close> members left out when empty, a newline at the end; in a string, the
  escapes of \<open>encoding/json\<close> (HTML escaping included), valid UTF-8 sequences as they are,
  and the escape of \<open>U+FFFD\<close> for every byte that is not part of one. It reads the texts of this shape
  back as \<open>json.Unmarshal\<close> does, and refuses any other text. Its compressors are
  stand-ins that store the bytes behind a two-byte tag.
\<close>

abbreviation DQ :: char where
  "DQ \<equiv> CHR 0x22"

abbreviation BSL :: char where
  "BSL \<equiv> CHR 0x5C"

definition hexdigit :: "int \<Rightarrow> char" where
  "hexdigit d = ''0123456789abcdef'' ! nat d"

definition json_escape :: "char \<Rightarrow> string" where
  "json_escape c =
     (if c = DQ then [BSL, DQ]
      else if c = BSL then [BSL, BSL]
      else if c = CHR 0x0A then [BSL, CHR ''n'']
      else if c = CHR 0x0D then [BSL, CHR ''r'']
      else if c = CHR 0x09 then [BSL, CHR ''t'']
      else if (of_char c :: int) < 32 \<or> c = CHR ''<'' \<or> c = CHR ''>'' \<or> c = CHR ''&''
      then [BSL, CHR ''u'', CHR ''0'', CHR ''0'',
            hexdigit ((of_char c :: int) div 16), hexdigit ((of_char c :: int) mod 16)]
      else [c])"

text \<open>
  \<open>utf8.DecodeRuneInString\<close>, as far as the codec needs it: the number of bytes of the
  UTF-8 sequence at the head of a string that starts with a byte above \<open>0x7F\<close>, and \<open>0\<close>
  when there is no valid sequence there.
\<close>

definition cont :: "int \<Rightarrow> bool" where
  "cont b \<longleftrightarrow> 128 \<le> b \<and> b \<le> 191"

definition utf8_len :: "string \<Rightarrow> nat" where
  "utf8_len s =
     (case map of_char s of
        b0 # b1 # bs \<Rightarrow>
          if 194 \<le> b0 \<and> b0 \<le> 223 then (if cont b1 then 2 else 0)
          else if 224 \<le> b0 \<and> b0 \<le> 239 then
            (if (if b0 = 224 then 160 \<le> b1 \<and> b1 \<le> 191
                 else if b0 = 237 then 128 \<le> b1 \<and> b1 \<le> 159 else cont b1)
                \<and> (case bs of b2 # t \<Rightarrow> cont b2 | [] \<Rightarrow> False)
             then 3 else 0)
          else if 240 \<le> b0 \<and> b0 \<le> 244 then
            (if (if b0 = 240 then 144 \<le> b1 \<and> b1 \<le> 191
                 else if b0 = 244 then 128 \<le> b1 \<and> b1 \<le> 143 else cont b1)
                \<and> (case bs of b2 # b3 # t \<Rightarrow> cont b2 \<and> cont b3 | _ \<Rightarrow> False)
             then 4 else 0)
          else 0
      | _ \<Rightarrow> 0)"

text \<open>\<open>utf8.EncodeRune\<close> and the replacement character \<open>U+FFFD\<close>.\<close>

definition utf8_encode :: "int \<Rightarrow> string" where
  "utf8_encode r =
     (if r < 128 then [char_of r]
      else if r < 2048 then [char_of (192 + r div 64), char_of (128 + r mod 64)]
      else if r < 65536 then
        [char_of (224 + r div 4096), char_of (128 + r div 64 mod 64), char_of (128 + r mod 64)]
      else
        [char_of (240 + r div 262144), char_of (128 + r div 4096 mod 64),
         char_of (128 + r div 64 mod 64), char_of (128 + r mod 64)])"

definition replacement :: string where
  "replacement = utf8_encode 65533"

text \<open>The characters of a string between the quotes, as the encoder writes them.\<close>

function json_chars :: "string \<Rightarrow> string" where
  "json_chars s =
     (case s of
        [] \<Rightarrow> []
      | c # cs \<Rightarrow>
          if (of_char c :: int) < 128 then json_escape c @ json_chars cs
          else if utf8_len s = 0 then BSL # ''ufffd'' @ json_chars cs
          else
            (if take 3 s = utf8_encode 8232 then BSL # ''u2028''
             else if take 3 s = utf8_encode 8233 then BSL # ''u2029''
             else take (utf8_len s) s)
            @ json_chars (drop (utf8_len s) s))"
  by pat_completeness auto
termination
  by (relation "measure length") auto

declare json_chars.simps [simp del]

definition json_string :: "string \<Rightarrow> string" where
  "json_string s = DQ # json_chars s @ [DQ]"

definition hex_val :: "char \<Rightarrow> int option" where
  "hex_val c =
     (let n = (of_char c :: int)
      in if 48 \<le> n \<and> n \<le> 57 then Some (n - 48)
         else if 97 \<le> n \<and> n \<le> 102 then Some (n - 87)
         else if 65 \<le> n \<and> n \<le> 70 then Some (n - 55)
         else None)"

text \<open>The value of the four hexadecimal digits at the head of a string.\<close>

definition hex4 :: "string \<Rightarrow> int option" where
  "hex4 s =
     (case map hex_val (take 4 s) of
        [Some a, Some b, Some c, Some d] \<Rightarrow> Some (((a * 16 + b) * 16 + c) * 16 + d)
      | _ \<Rightarrow> None)"

definition unescape :: "char \<Rightarrow> char option" where
  "unescape e =
     (if e = DQ \<or> e = BSL \<or> e = CHR ''/'' then Some e
      else if e = CHR ''b'' then Some (CHR 0x08)
      else if e = CHR ''f'' then Some (CHR 0x0C)
      else if e = CHR ''n'' then Some (CHR 0x0A)
      else if e = CHR ''r'' then Some (CHR 0x0D)
      else if e = CHR ''t'' then Some (CHR 0x09)
      else None)"

definition put :: "string \<Rightarrow> (string \<times> string) option \<Rightarrow> (string \<times> string) option" where
  "put p x = map_option (\<lambda>(s, t). (p @ s, t)) x"

text \<open>
  The characters of a JSON string after its opening quote, and what follows it: escapes are
  resolved, a pair of surrogates gives one character, a lone surrogate and a byte that is
  not part of a UTF-8 sequence give \<open>U+FFFD\<close>, and a raw control character is refused.
\<close>

function json_unquote :: "string \<Rightarrow> (string \<times> string) option" where
  "json_unquote s =
     (case s of
        [] \<Rightarrow> None
      | c # cs \<Rightarrow>
          if c = DQ then Some ([], cs)
          else if c = BSL then
            (case cs of
               [] \<Rightarrow> None
             | e # es \<Rightarrow>
                 if e = CHR ''u'' then
                   (case hex4 es of
                      None \<Rightarrow> None
                    | Some v \<Rightarrow>
                        if 55296 \<le> v \<and> v < 57344 then
                          (case (if take 2 (drop 4 es) = [BSL, CHR ''u'']
                                 then hex4 (drop 6 es) else None) of
                             None \<Rightarrow> put replacement (json_unquote (drop 4 es))
                           | Some v2 \<Rightarrow>
                               if v < 56320 \<and> 56320 \<le> v2 \<and> v2 < 57344
                               then put (utf8_encode (65536 + (v - 55296) * 1024 + (v2 - 56320)))
                                      (json_unquote (drop 10 es))
                               else put replacement (json_unquote (drop 4 es)))
                        else put (utf8_encode v) (json_unquote (drop 4 es)))
                 else
                   (case unescape e of
                      None \<Rightarrow> None
                    | Some x \<Rightarrow> put [x] (json_unquote es)))
          else if (of_char c :: int) < 32 then None
          else if (of_char c :: int) < 128 then put [c] (json_unquote cs)
          else if utf8_len s = 0 then put replacement (json_unquote cs)
          else put (take (utf8_len s) s) (json_unquote (drop (utf8_len s) s)))"
  by pat_completeness auto
termination
  by (relation "measure length") auto

declare json_unquote.simps [simp del]

definition strip_prefix :: "string \<Rightarrow> string \<Rightarrow> string option" where
  "strip_prefix p s = (if take (length p) s = p then Some (drop (length p) s) else None)"

text \<open>An optional string member \<open>,"name":"..."\<close>: its value (empty when absent) and the rest.\<close>

definition json_opt_member :: "string \<Rightarrow> string \<Rightarrow> (string \<times> string) option" where
  "json_opt_member name s =
     (case strip_prefix (CHR '','' # DQ # name @ [DQ, CHR '':'', DQ]) s of
        None \<Rightarrow> Some ([], s)
      | Some t \<Rightarrow> json_unquote t)"

text \<open>
  A JSON integer: an optional minus sign and decimal digits, with no leading zero. A number
  outside the range of the member (\<open>uint32\<close> for the mode, \<open>int\<close> for the version) is an
  error of \<open>json.Unmarshal\<close>.
\<close>

definition json_digits :: "string \<Rightarrow> (int \<times> string) option" where
  "json_digits s =
     (let ds = takeWhile (\<lambda>c. digit_val c \<noteq> None) s
      in if ds = [] \<or> (hd ds = CHR ''0'' \<and> length ds \<noteq> 1) then None
         else map_option (\<lambda>n. (n, dropWhile (\<lambda>c. digit_val c \<noteq> None) s)) (digits_val 0 ds))"

definition json_int :: "string \<Rightarrow> (int \<times> string) option" where
  "json_int s =
     (case s of
        [] \<Rightarrow> None
      | c # t \<Rightarrow>
          if c = CHR ''-'' then map_option (\<lambda>(n, r). (- n, r)) (json_digits t)
          else json_digits s)"

definition json_opt_number :: "string \<Rightarrow> string \<Rightarrow> (int \<times> string) option" where
  "json_opt_number name s =
     (case strip_prefix (CHR '','' # DQ # name @ [DQ, CHR '':'']) s of
        None \<Rightarrow> Some (0, s)
      | Some t \<Rightarrow>
          (case json_int t of
             None \<Rightarrow> None
           | Some (n, r) \<Rightarrow> if 0 \<le> n \<and> n < 2 ^ 32 then Some (n, r) else None))"

definition refEncFileHeader :: "fileHeader \<Rightarrow> string" where
  "refEncFileHeader h =
     CHR ''{'' # DQ # ''path'' @ [DQ, CHR '':''] @ json_string (hPath h)
     @ (if hUser h = [] then [] else CHR '','' # DQ # ''user'' @ [DQ, CHR '':''] @ json_string (hUser h))
     @ (if hGroup h = [] then [] else CHR '','' # DQ # ''group'' @ [DQ, CHR '':''] @ json_string (hGroup h))
     @ (if hMode h = 0 then [] else CHR '','' # DQ # ''mode'' @ [DQ, CHR '':''] @ Itoa (uint (hMode h)))
     @ [CHR ''}'', CHR 0x0A]"

definition refDecFileHeader :: "string \<Rightarrow> fileHeader option" where
  "refDecFileHeader s =
     (case strip_prefix (CHR ''{'' # DQ # ''path'' @ [DQ, CHR '':'', DQ]) s of
        None \<Rightarrow> None
      | Some s1 \<Rightarrow>
          (case json_unquote s1 of
             None \<Rightarrow> None
           | Some (p, s2) \<Rightarrow>
               (case json_opt_member ''user'' s2 of
                  None \<Rightarrow> None
                | Some (u, s3) \<Rightarrow>
                    (case json_opt_member ''group'' s3 of
                       None \<Rightarrow> None
                     | Some (g, s4) \<Rightarrow>
                         (case json_opt_number ''mode'' s4 of
                            None \<Rightarrow> None
                          | Some (m, s5) \<Rightarrow>
                              if s5 = [CHR ''}'', CHR 0x0A] \<or> s5 = [CHR ''}'']
                              then Some \<lparr>hPath = p, hUser = u, hGroup = g, hMode = word_of_int m\<rparr>
                              else None)))))"

definition refEncStreamHeader :: "streamHeader \<Rightarrow> string" where
  "refEncStreamHeader h =
     CHR ''{'' # DQ # ''version'' @ [DQ, CHR '':''] @ Itoa (hVersion h)
     @ (if hCompression h = [] then []
        else CHR '','' # DQ # ''compression'' @ [DQ, CHR '':''] @ json_string (hCompression h))
     @ [CHR ''}'', CHR 0x0A]"

definition refDecStreamHeader :: "string \<Rightarrow> streamHeader option" where
  "refDecStreamHeader s =
     (case strip_prefix (CHR ''{'' # DQ # ''version'' @ [DQ, CHR '':'']) s of
        None \<Rightarrow> None
      | Some s1 \<Rightarrow>
          (case json_int s1 of
             None \<Rightarrow> None
           | Some (v, s2) \<Rightarrow>
               if v < - (2 ^ 63) \<or> 2 ^ 63 \<le> v then None
               else
                 (case json_opt_member ''compression'' s2 of
                    None \<Rightarrow> None
                  | Some (c, s3) \<Rightarrow>
                      if s3 = [CHR ''}'', CHR 0x0A] \<or> s3 = [CHR ''}'']
                      then Some \<lparr>hVersion = v, hCompression = c\<rparr> else None)))"

text \<open>
  The stand-in for \<open>gzip.NewReader\<close> reads the tag as the real one reads the gzip header:
  \<open>io.EOF\<close> on an empty source, \<open>io.ErrUnexpectedEOF\<close> on a source that ends inside the
  tag, an error of the package on another tag.
\<close>

definition refGunzip :: "string \<Rightarrow> error + string \<times> error option" where
  "refGunzip s =
     (if s = [] then Inl EOF
      else if s = ''G'' then Inl ErrUnexpectedEOF
      else if take 2 s = ''GZ'' then Inr (drop 2 s, None)
      else Inl ErrGzip)"

definition refLib :: lib where
  "refLib =
     \<lparr>encStreamHeader = refEncStreamHeader,
      decStreamHeader = refDecStreamHeader,
      encFileHeader = refEncFileHeader,
      decFileHeader = refDecFileHeader,
      gzipLevelOk = (\<lambda>l. - 2 \<le> l \<and> l \<le> 9),
      gzipZ = (\<lambda>l s. ''GZ'' @ s),
      lz4Z = (\<lambda>l s. ''L4'' @ s),
      gunzip = refGunzip,
      unlz4 = drop 2\<rparr>"

section \<open>The wire format, and example states\<close>

text \<open>
  The records of the wire format, written from the specification: a header record is the
  encoded header and the delimiter; a chunk record is the decimal length, the delimiter and
  the payload, with nothing after the payload.
\<close>

definition header_record :: "lib \<Rightarrow> fileHeader \<Rightarrow> string" where
  "header_record L h = encFileHeader L h @ [NUL]"

definition chunk_record :: "string \<Rightarrow> string" where
  "chunk_record d = Itoa (int (length d)) @ [NUL] @ d"

text \<open>
  The successive writes through the buffered writer that make up a header record and a
  chunk record, and a Writer after a list of such writes.
\<close>

definition header_writes :: "lib \<Rightarrow> fileHeader \<Rightarrow> string list" where
  "header_writes L h = [encFileHeader L h, [NUL]]"

definition chunk_writes :: "string \<Rightarrow> string list" where
  "chunk_writes d = [Itoa (int (length d)), [NUL], d]"

definition emit :: "Writer \<Rightarrow> string list \<Rightarrow> Writer" where
  "emit wr ps = foldl bufWrite wr ps"

text \<open>
  The body of a file entry written by the calls \<open>ds\<close>, the header and the bytes of an
  entry, the cleartext stream header record, and the framed bytes of a whole stream: the
  entries, then the terminator header record. \<open>expected\<close> is the entry that the round
  trip is to return, with the directory bit set in the mode of a directory, as
  \<open>TestRoundTrip\<close> expects it.
\<close>

definition body_bytes :: "string list \<Rightarrow> string" where
  "body_bytes ds = concat (map chunk_record (filter (\<lambda>d. d \<noteq> []) ds)) @ chunk_record []"

definition header_of :: "entry \<Rightarrow> fileHeader" where
  "header_of e =
     \<lparr>hPath = ePath e, hUser = User (eOpts e), hGroup = Group (eOpts e),
      hMode = (if eDir e then Permissions (eOpts e) OR ModeDir else Permissions (eOpts e))\<rparr>"

definition entry_bytes :: "lib \<Rightarrow> entry \<Rightarrow> string" where
  "entry_bytes L e =
     header_record L (header_of e) @ (if eDir e then chunk_record [] else body_bytes (eWrites e))"

definition stream_header_record :: "lib \<Rightarrow> StreamOptions \<Rightarrow> string" where
  "stream_header_record L sopts =
     encStreamHeader L \<lparr>hVersion = 0, hCompression = Compression sopts\<rparr> @ [NUL]"

definition stream_bytes :: "lib \<Rightarrow> entry list \<Rightarrow> string" where
  "stream_bytes L es = concat (map (entry_bytes L) es) @ header_record L terminator"

definition expected :: "entry \<Rightarrow> testFile" where
  "expected e =
     \<lparr>tPath = ePath e, tDir = eDir e,
      tData = (if eDir e then [] else concat (eWrites e)),
      tOpts = \<lparr>Permissions = hMode (header_of e), User = User (eOpts e),
               Group = Group (eOpts e)\<rparr>\<rparr>"

text \<open>
  What the theorems ask of the inputs and of the libraries. A header is handled by the JSON
  codec when its encoding contains no \<open>0x00\<close> byte and decodes to the header again. An entry
  is well-formed when its path contains no \<open>0x00\<close> byte, a file does not carry the directory
  bit in its mode, every slice is shorter than \<open>2^63\<close> bytes (the range of a Go \<open>int\<close>)
  and the codec handles its header.
\<close>

definition header_codec_ok :: "lib \<Rightarrow> fileHeader \<Rightarrow> bool" where
  "header_codec_ok L h \<longleftrightarrow>
     NUL \<notin> set (encFileHeader L h) \<and> decFileHeader L (encFileHeader L h) = Some h"

definition entry_ok :: "lib \<Rightarrow> entry \<Rightarrow> bool" where
  "entry_ok L e \<longleftrightarrow>
     NUL \<notin> set (ePath e)
     \<and> (eDir e \<or> \<not> IsDirMode (Permissions (eOpts e)))
     \<and> list_all (\<lambda>d. length d < 2 ^ 63) (eWrites e)
     \<and> header_codec_ok L (header_of e)"

definition stream_codec_ok :: "lib \<Rightarrow> StreamOptions \<Rightarrow> bool" where
  "stream_codec_ok L sopts \<longleftrightarrow>
     NUL \<notin> set (encStreamHeader L \<lparr>hVersion = 0, hCompression = Compression sopts\<rparr>)
     \<and> decStreamHeader L (encStreamHeader L \<lparr>hVersion = 0, hCompression = Compression sopts\<rparr>)
         = Some \<lparr>hVersion = 0, hCompression = Compression sopts\<rparr>"

text \<open>
  What the round trip of the bytes \<open>b\<close> asks of the compression libraries, for each
  configuration that the package supports. For \<open>gzip\<close>: the level is \<open>0\<close>, which stands
  for \<open>gzip.DefaultCompression = -1\<close>, or a level that \<open>gzip.NewWriterLevel\<close> accepts,
  and \<open>gzip.NewReader\<close> returns the bytes from which a \<open>gzip.Writer\<close> of that level has
  written its output, and closes without error. For \<open>lz4\<close>, at any level: the reader
  returns the bytes from which the writer of that level has written its output. Nothing is
  asked without compression, and no other name is supported.
\<close>

definition library_ok :: "lib \<Rightarrow> StreamOptions \<Rightarrow> string \<Rightarrow> bool" where
  "library_ok L sopts b \<longleftrightarrow>
     (if Compression sopts = [] then True
      else if Compression sopts = ''gzip'' then
        (if CompressionLevel sopts = 0 then gunzip L (gzipZ L (- 1) b) = Inr (b, None)
         else gzipLevelOk L (CompressionLevel sopts)
              \<and> gunzip L (gzipZ L (CompressionLevel sopts) b) = Inr (b, None))
      else Compression sopts = ''lz4''
           \<and> unlz4 L (lz4Z L (CompressionLevel sopts) b) = b)"

text \<open>Putting bytes, or entries, in front of a result.\<close>

definition prepend ::
  "string \<Rightarrow> (string \<times> error option) outcome \<times> 'a \<Rightarrow> (string \<times> error option) outcome \<times> 'a" where
  "prepend d x = (case x of (Panic, y) \<Rightarrow> (Panic, y) | (Return (ds, e), y) \<Rightarrow> (Return (d @ ds, e), y))"

definition prependE ::
  "testFile list \<Rightarrow> (testFile list \<times> error option) outcome \<times> 'a \<Rightarrow>
   (testFile list \<times> error option) outcome \<times> 'a" where
  "prependE es x =
     (case x of (Panic, y) \<Rightarrow> (Panic, y) | (Return (res, e), y) \<Rightarrow> (Return (es @ res, e), y))"

text \<open>A Reader with the bytes \<open>X\<close> added at the end of its stream.\<close>

definition extended :: "string \<Rightarrow> Reader \<Rightarrow> Reader" where
  "extended X r = r\<lparr>stream := stream r @ X\<rparr>"

text \<open>The second half of \<open>Read\<close>: copying from the current chunk.\<close>

definition payload ::
  "FileReader \<Rightarrow> Reader \<Rightarrow> nat \<Rightarrow> (string \<times> error option) outcome \<times> FileReader \<times> Reader" where
  "payload f1 r1 k =
     (let n = (if chunkRem f1 > int k then int k else chunkRem f1)
      in if n < 0 then (Panic, f1, r1)
         else
           (case streamRead (stream r1) (nat n) of
              ((d, e), s') \<Rightarrow>
                (Return (d, map_option unexpected e),
                 f1\<lparr>chunkRem := chunkRem f1 - int (length d)\<rparr>, r1\<lparr>stream := s'\<rparr>)))"

text \<open>\<open>Next\<close> from the point where the header of an entry has been decoded.\<close>

definition Next_entry :: "fileHeader \<Rightarrow> Reader \<Rightarrow> bool outcome \<times> Reader" where
  "Next_entry h r =
     (let f = \<lparr>rhdr = h, rdone = False, chunkRem = 0\<rparr>;
          r1 = r\<lparr>fr := Some f\<rparr>
      in if IsDir f then
           (case Read f r1 0 of
              (Panic, f', r2) \<Rightarrow> (Panic, r2\<lparr>fr := Some f'\<rparr>)
            | (Return (d, None), f', r2) \<Rightarrow>
                (Return False, r2\<lparr>fr := None, err := Some (ErrDirBody (hPath h))\<rparr>)
            | (Return (d, Some e), f', r2) \<Rightarrow>
                if e \<noteq> EOF then (Return False, r2\<lparr>fr := None, err := Some e\<rparr>)
                else (Return True, r2\<lparr>fr := Some f'\<rparr>))
         else (Return True, r1))"

text \<open>Concrete states on which the theorems below are instantiated.\<close>

definition ex_opts :: FileOptions where
  "ex_opts = \<lparr>Permissions = 420, User = ''usr'', Group = ''grp''\<rparr>"

definition ex_idle :: Writer where
  "ex_idle = \<lparr>curFile = 3, writing = False, w = ''abc'', held = 3, closer = None,
               closed = False, pre = []\<rparr>"

definition ex_busy :: Writer where
  "ex_busy = \<lparr>curFile = 4, writing = True, w = ''abc'', held = 3, closer = None,
               closed = False, pre = []\<rparr>"

definition ex_handle :: fileWriter where
  "ex_handle = \<lparr>fileNo = 4, started = False,
                 hdr = \<lparr>hPath = ''a.txt'', hUser = [], hGroup = [], hMode = 0\<rparr>\<rparr>"

definition ex_reader :: Reader where
  "ex_reader =
     \<lparr>ready = True, rclosed = False,
      stream = refEncFileHeader \<lparr>hPath = ''a.txt'', hUser = [], hGroup = [], hMode = 0\<rparr>
               @ [NUL] @ ''5'' @ [NUL] @ ''hello'' @ ''0'' @ [NUL]
               @ refEncFileHeader terminator @ [NUL],
      rcloser = None, fr = None, err = None\<rparr>"

definition ex_excess :: Reader where
  "ex_excess =
     \<lparr>ready = True, rclosed = False,
      stream = refEncFileHeader terminator @ [NUL] @ ''x'',
      rcloser = None, fr = None, err = None\<rparr>"

definition ex_entries :: "entry list" where
  "ex_entries =
     [\<lparr>ePath = ''/'', eDir = True, eWrites = [],
       eOpts = \<lparr>Permissions = 0, User = [], Group = []\<rparr>\<rparr>,
      \<lparr>ePath = ''/hello.txt'', eDir = False, eWrites = [''hello '', [], ''world''],
       eOpts = ex_opts\<rparr>]"

definition ex_gzip :: StreamOptions where
  "ex_gzip = \<lparr>Compression = ''gzip'', CompressionLevel = 9\<rparr>"

definition ex_plain :: StreamOptions where
  "ex_plain = \<lparr>Compression = [], CompressionLevel = 0\<rparr>"

definition ex_gzip_default :: StreamOptions where
  "ex_gzip_default = \<lparr>Compression = ''gzip'', CompressionLevel = 0\<rparr>"

definition ex_lz4 :: StreamOptions where
  "ex_lz4 = \<lparr>Compression = ''lz4'', CompressionLevel = 4\<rparr>"

text \<open>What reading the example entries back is to return.\<close>

definition ex_expected :: "testFile list" where
  "ex_expected =
     [\<lparr>tPath = ''/'', tDir = True, tData = [],
       tOpts = \<lparr>Permissions = 2147483648, User = [], Group = []\<rparr>\<rparr>,
      \<lparr>tPath = ''/hello.txt'', tDir = False, tData = ''hello world'',
       tOpts = \<lparr>Permissions = 420, User = ''usr'', Group = ''grp''\<rparr>\<rparr>]"

definition ex_not_utf8 :: "entry list" where
  "ex_not_utf8 =
     [\<lparr>ePath = [CHR 0xFF], eDir = False, eWrites = [''x''],
       eOpts = \<lparr>Permissions = 420, User = [], Group = []\<rparr>\<rparr>]"

definition ex_dir_bit :: "entry list" where
  "ex_dir_bit =
     [\<lparr>ePath = ''f'', eDir = False, eWrites = [''x''],
       eOpts = \<lparr>Permissions = ModeDir OR 420, User = [], Group = []\<rparr>\<rparr>]"

section \<open>The Writer: what each call appends\<close>

lemma Itoa_0: "Itoa 0 = ''0''"
  by (simp add: Itoa_def digits.simps digit_def)

lemma chunk_record_Nil: "chunk_record [] = [CHR ''0'', NUL]"
  by (simp add: chunk_record_def Itoa_0)

lemma bufWrite_fields [simp]:
  "w (bufWrite wr p) = w wr @ p" "curFile (bufWrite wr p) = curFile wr"
  "writing (bufWrite wr p) = writing wr" "closer (bufWrite wr p) = closer wr"
  "closed (bufWrite wr p) = closed wr" "pre (bufWrite wr p) = pre wr"
  by (simp_all add: bufWrite_def)

lemma Flush_fields [simp]:
  "w (Flush wr) = w wr" "held (Flush wr) = 0" "curFile (Flush wr) = curFile wr"
  "writing (Flush wr) = writing wr" "closer (Flush wr) = closer wr"
  "closed (Flush wr) = closed wr" "pre (Flush wr) = pre wr"
  by (simp_all add: Flush_def)

lemma emit_eq:
  "emit wr ps = wr\<lparr>w := w wr @ concat ps, held := foldl hold (held wr) (map length ps)\<rparr>"
  unfolding emit_def by (induction ps arbitrary: wr) (simp_all add: bufWrite_def)

lemma emit_fields [simp]:
  "w (emit wr ps) = w wr @ concat ps" "curFile (emit wr ps) = curFile wr"
  "writing (emit wr ps) = writing wr" "closer (emit wr ps) = closer wr"
  "closed (emit wr ps) = closed wr" "pre (emit wr ps) = pre wr"
  by (simp_all add: emit_eq)

lemma emit_Nil [simp]: "emit wr [] = wr"
  by (simp add: emit_def)

lemma emit_append: "emit wr (ps @ qs) = emit (emit wr ps) qs"
  by (simp add: emit_def)

lemma concat_header_writes [simp]: "concat (header_writes L h) = header_record L h"
  by (simp add: header_writes_def header_record_def)

lemma concat_chunk_writes [simp]: "concat (chunk_writes d) = chunk_record d"
  by (simp add: chunk_writes_def chunk_record_def)

lemma Writer_write_ok:
  "\<not> closed wr \<Longrightarrow> writing wr \<Longrightarrow>
   Writer_write wr (curFile wr) d = ((length d, None), emit wr (chunk_writes d))"
  by (simp add: Writer_write_def chunk_writes_def emit_def)

lemma startFile_ok:
  "\<not> closed wr \<Longrightarrow> NUL \<notin> set (hPath h) \<Longrightarrow>
   startFile L wr h = (None, emit wr (header_writes L h))"
  by (simp add: startFile_def header_writes_def emit_def)

lemma Write_ok:
  assumes "\<not> closed wr" "writing wr" "fileNo fw = curFile wr"
    and "started fw \<or> NUL \<notin> set (hPath (hdr fw))"
  shows "Write L fw wr d =
     ((length d, None), fw\<lparr>started := True\<rparr>,
      emit wr ((if started fw then [] else header_writes L (hdr fw))
               @ (if d = [] then [] else chunk_writes d)))"
proof (cases "started fw")
  case True
  with assms show ?thesis
    using Writer_write_ok[of wr d] by (simp add: Write_def)
next
  case False
  let ?wr = "emit wr (header_writes L (hdr fw))"
  have s: "startFile L wr (hdr fw) = (None, ?wr)"
    using assms False by (intro startFile_ok) simp_all
  have "Writer_write ?wr (curFile ?wr) d = ((length d, None), emit ?wr (chunk_writes d))"
    using assms by (intro Writer_write_ok) simp_all
  then have c: "Writer_write ?wr (fileNo fw) d = ((length d, None), emit ?wr (chunk_writes d))"
    using assms(3) by simp
  show ?thesis using False s c by (simp add: Write_def emit_append)
qed

lemma WriteAll_ok:
  assumes "\<not> closed wr" "writing wr" "fileNo fw = curFile wr"
    and "started fw \<or> NUL \<notin> set (hPath (hdr fw))"
  shows "WriteAll L fw wr ds =
     (None, fw\<lparr>started := started fw \<or> ds \<noteq> []\<rparr>,
      emit wr ((if started fw \<or> ds = [] then [] else header_writes L (hdr fw))
               @ concat (map chunk_writes (filter (\<lambda>d. d \<noteq> []) ds))))"
  using assms
proof (induction ds arbitrary: fw wr)
  case Nil
  then show ?case by simp
next
  case (Cons d ds)
  let ?fw = "fw\<lparr>started := True\<rparr>"
  let ?wr = "emit wr ((if started fw then [] else header_writes L (hdr fw))
                      @ (if d = [] then [] else chunk_writes d))"
  have step: "Write L fw wr d = ((length d, None), ?fw, ?wr)"
    using Cons.prems by (rule Write_ok)
  have "WriteAll L ?fw ?wr ds =
     (None, ?fw\<lparr>started := started ?fw \<or> ds \<noteq> []\<rparr>,
      emit ?wr ((if started ?fw \<or> ds = [] then [] else header_writes L (hdr ?fw))
                @ concat (map chunk_writes (filter (\<lambda>d. d \<noteq> []) ds))))"
    using Cons.prems by (intro Cons.IH) simp_all
  then show ?case using step by (simp add: emit_append)
qed

lemma CloseFile_ok:
  assumes "\<not> closed wr" "writing wr" "fileNo fw = curFile wr"
    and "started fw \<or> NUL \<notin> set (hPath (hdr fw))"
  shows "CloseFile L fw wr =
     (None, fw\<lparr>started := True\<rparr>,
      (emit wr ((if started fw then [] else header_writes L (hdr fw)) @ chunk_writes []))
        \<lparr>writing := False\<rparr>)"
proof (cases "started fw")
  case True
  then show ?thesis
    using assms Writer_write_ok[of wr "[]"] by (simp add: CloseFile_def)
next
  case False
  let ?wr = "emit wr (header_writes L (hdr fw))"
  have 1: "Write L fw wr [] = ((0, None), fw\<lparr>started := True\<rparr>, ?wr)"
    using Write_ok[OF assms, of L "[]"] False by simp
  have "Writer_write ?wr (curFile ?wr) [] = ((0, None), emit ?wr (chunk_writes []))"
    using assms Writer_write_ok[of ?wr "[]"] by simp
  then have 2: "Writer_write ?wr (fileNo fw) [] = ((0, None), emit ?wr (chunk_writes []))"
    using assms(3) by simp
  show ?thesis using False 1 2 by (simp add: CloseFile_def emit_append)
qed

text \<open>
  Claim C3. On an open file entry (the stream is not closed and the handle is the active
  entry), one \<open>Write\<close> of a non-empty slice appends exactly one chunk record: the decimal
  digits of the length, one \<open>0x00\<close> byte and the bytes of the slice (after the header
  record, when this is the first operation on the handle), each part in one write through
  the buffered writer. A whole body made of the calls \<open>ds\<close> and closed consists of one
  chunk record per non-empty call, in order, followed by the zero-length chunk: calls are
  neither merged nor split.
\<close>

theorem C3_one_chunk_record_per_write:
  assumes "\<not> closed wr" and "writing wr" and "fileNo fw = curFile wr"
    and "started fw \<or> NUL \<notin> set (hPath (hdr fw))"
  shows "(dat \<noteq> [] \<longrightarrow>
           Write L fw wr dat =
             ((length dat, None), fw\<lparr>started := True\<rparr>,
              wr\<lparr>w := w wr @ (if started fw then [] else encFileHeader L (hdr fw) @ [NUL])
                           @ Itoa (int (length dat)) @ [NUL] @ dat,
                 held := foldl hold (held wr)
                           ((if started fw then [] else [length (encFileHeader L (hdr fw)), 1])
                            @ [length (Itoa (int (length dat))), 1, length dat])\<rparr>))
       \<and> (\<exists>fw1 wr1 fw2 wr2.
             WriteAll L fw wr ds = (None, fw1, wr1) \<and> CloseFile L fw1 wr1 = (None, fw2, wr2) \<and>
             w wr2 = w wr @ (if started fw then [] else encFileHeader L (hdr fw) @ [NUL])
                       @ concat (map chunk_record (filter (\<lambda>d. d \<noteq> []) ds))
                       @ [CHR ''0'', NUL])"
proof
  show "dat \<noteq> [] \<longrightarrow>
           Write L fw wr dat =
             ((length dat, None), fw\<lparr>started := True\<rparr>,
              wr\<lparr>w := w wr @ (if started fw then [] else encFileHeader L (hdr fw) @ [NUL])
                           @ Itoa (int (length dat)) @ [NUL] @ dat,
                 held := foldl hold (held wr)
                           ((if started fw then [] else [length (encFileHeader L (hdr fw)), 1])
                            @ [length (Itoa (int (length dat))), 1, length dat])\<rparr>)"
    using Write_ok[OF assms, of L dat]
    by (simp add: emit_eq header_writes_def chunk_writes_def)
next
  let ?fw1 = "fw\<lparr>started := started fw \<or> ds \<noteq> []\<rparr>"
  let ?wr1 = "emit wr ((if started fw \<or> ds = [] then [] else header_writes L (hdr fw))
                       @ concat (map chunk_writes (filter (\<lambda>d. d \<noteq> []) ds)))"
  let ?wr2 = "(emit ?wr1 ((if started ?fw1 then [] else header_writes L (hdr ?fw1))
                          @ chunk_writes []))\<lparr>writing := False\<rparr>"
  have 1: "WriteAll L fw wr ds = (None, ?fw1, ?wr1)"
    using assms by (rule WriteAll_ok)
  have 2: "CloseFile L ?fw1 ?wr1 = (None, ?fw1\<lparr>started := True\<rparr>, ?wr2)"
    using assms by (intro CloseFile_ok) auto
  have c: "concat (concat (map chunk_writes xs)) = concat (map chunk_record xs)" for xs
    by (induction xs) simp_all
  have 3: "w ?wr2 =
           w wr @ (if started fw then [] else encFileHeader L (hdr fw) @ [NUL])
                       @ concat (map chunk_record (filter (\<lambda>d. d \<noteq> []) ds))
                       @ [CHR ''0'', NUL]"
    by (auto simp: header_record_def chunk_record_Nil c)
  show "\<exists>fw1 wr1 fw2 wr2.
             WriteAll L fw wr ds = (None, fw1, wr1) \<and> CloseFile L fw1 wr1 = (None, fw2, wr2) \<and>
             w wr2 = w wr @ (if started fw then [] else encFileHeader L (hdr fw) @ [NUL])
                       @ concat (map chunk_record (filter (\<lambda>d. d \<noteq> []) ds))
                       @ [CHR ''0'', NUL]"
    using 1 2 3 by blast
qed

theorem C3_witness:
  "Write refLib (ex_handle\<lparr>started := True\<rparr>) ex_busy ''hello'' =
     ((5, None), ex_handle\<lparr>started := True\<rparr>,
      ex_busy\<lparr>w := ''abc5'' @ [NUL] @ ''hello'', held := 10\<rparr>)
   \<and> (\<exists>fw1 wr1 fw2 wr2.
         WriteAll refLib (ex_handle\<lparr>started := True\<rparr>) ex_busy [''hi'', [], ''you''] = (None, fw1, wr1) \<and>
         CloseFile refLib fw1 wr1 = (None, fw2, wr2) \<and>
         w wr2 = ''abc2'' @ [NUL] @ ''hi3'' @ [NUL] @ ''you0'' @ [NUL])"
  using C3_one_chunk_record_per_write
          [of ex_busy "ex_handle\<lparr>started := True\<rparr>" "''hello''" refLib "[''hi'', [], ''you'']"]
  by (simp add: ex_busy_def ex_handle_def chunk_record_def Itoa_def digits.simps digit_def
      hold_def bufSize_def)

text \<open>
  Claim C4. Opening a file entry on an idle, open Writer and closing it with no \<open>Write\<close>
  in between appends exactly one header record followed by the zero-length chunk (the byte
  \<open>0\<close> and \<open>0x00\<close>), and ends the entry. Closing the same handle once more fails and
  appends nothing: the header is not written a second time.
\<close>

theorem C4_open_close_emits_header_once:
  assumes "\<not> closed wr" and "\<not> writing wr" and "NUL \<notin> set path"
  shows "\<exists>fw wr1 fw2 wr2.
           File wr path opts = (Inr fw, wr1) \<and> w wr1 = w wr \<and>
           hdr fw = \<lparr>hPath = path, hUser = User opts, hGroup = Group opts,
                     hMode = Permissions opts\<rparr> \<and>
           CloseFile L fw wr1 = (None, fw2, wr2) \<and>
           w wr2 = w wr @ encFileHeader L (hdr fw) @ [NUL] @ [CHR ''0'', NUL] \<and>
           \<not> writing wr2 \<and>
           CloseFile L fw2 wr2 = (Some ErrWrongFile, fw2, wr2)"
proof -
  let ?wr1 = "wr\<lparr>writing := True, curFile := curFile wr + 1\<rparr>"
  let ?fw = "\<lparr>fileNo = curFile wr + 1, started = False,
              hdr = \<lparr>hPath = path, hUser = User opts, hGroup = Group opts,
                     hMode = Permissions opts\<rparr>\<rparr>"
  let ?fw2 = "?fw\<lparr>started := True\<rparr>"
  let ?wr2 = "(emit ?wr1 ((if started ?fw then [] else header_writes L (hdr ?fw))
                          @ chunk_writes []))\<lparr>writing := False\<rparr>"
  have 1: "File wr path opts = (Inr ?fw, ?wr1)"
    using assms by (simp add: File_def)
  have 2: "CloseFile L ?fw ?wr1 = (None, ?fw2, ?wr2)"
    using assms by (intro CloseFile_ok) simp_all
  have 3: "CloseFile L ?fw2 ?wr2 = (Some ErrWrongFile, ?fw2, ?wr2)"
    using assms by (simp add: CloseFile_def Writer_write_def)
  have 4: "w ?wr2 = w wr @ encFileHeader L (hdr ?fw) @ [NUL] @ [CHR ''0'', NUL]"
    by (simp add: header_record_def chunk_record_Nil)
  show ?thesis
    using 1 2 3 4 by (intro exI[of _ ?fw] exI[of _ ?wr1] exI[of _ ?fw2] exI[of _ ?wr2]) simp
qed

theorem C4_witness:
  "\<exists>fw wr1 fw2 wr2.
     File ex_idle ''a.txt'' ex_opts = (Inr fw, wr1) \<and> w wr1 = ''abc'' \<and>
     hdr fw = \<lparr>hPath = ''a.txt'', hUser = ''usr'', hGroup = ''grp'', hMode = 420\<rparr> \<and>
     CloseFile refLib fw wr1 = (None, fw2, wr2) \<and>
     w wr2 = ''abc'' @ refEncFileHeader (hdr fw) @ [NUL] @ [CHR ''0'', NUL] \<and>
     \<not> writing wr2 \<and>
     CloseFile refLib fw2 wr2 = (Some ErrWrongFile, fw2, wr2)"
  using C4_open_close_emits_header_once [of ex_idle "''a.txt''" ex_opts refLib]
  by (simp add: ex_idle_def ex_opts_def refLib_def)

text \<open>
  Claim C10. \<open>Write\<close> with an empty slice returns \<open>(0, nil)\<close> and appends no chunk
  record, so the body is not ended and the Writer keeps the entry open (only the buffered
  writer can change). As the first operation on the handle it appends the header record,
  once: on a started handle nothing at all is appended.
\<close>

theorem C10_empty_write:
  "(started fw \<longrightarrow> Write L fw wr [] = ((0, None), fw, wr))
   \<and> (\<not> started fw \<and> \<not> closed wr \<and> NUL \<notin> set (hPath (hdr fw)) \<longrightarrow>
        Write L fw wr [] =
          ((0, None), fw\<lparr>started := True\<rparr>,
           wr\<lparr>w := w wr @ encFileHeader L (hdr fw) @ [NUL],
              held := hold (hold (held wr) (length (encFileHeader L (hdr fw)))) 1\<rparr>)
        \<and> Write L (fw\<lparr>started := True\<rparr>)
            (wr\<lparr>w := w wr @ encFileHeader L (hdr fw) @ [NUL],
                held := hold (hold (held wr) (length (encFileHeader L (hdr fw)))) 1\<rparr>) [] =
          ((0, None), fw\<lparr>started := True\<rparr>,
           wr\<lparr>w := w wr @ encFileHeader L (hdr fw) @ [NUL],
              held := hold (hold (held wr) (length (encFileHeader L (hdr fw)))) 1\<rparr>))"
  by (simp add: Write_def startFile_def bufWrite_def)

theorem C10_witness:
  "Write refLib (ex_handle\<lparr>started := True\<rparr>) ex_busy [] =
     ((0, None), ex_handle\<lparr>started := True\<rparr>, ex_busy)
   \<and> Write refLib ex_handle ex_busy [] =
       ((0, None), ex_handle\<lparr>started := True\<rparr>,
        ex_busy\<lparr>w := ''abc'' @ refEncFileHeader (hdr ex_handle) @ [NUL],
                held := hold (hold 3 (length (refEncFileHeader (hdr ex_handle)))) 1\<rparr>)
   \<and> writing (snd (snd (Write refLib ex_handle ex_busy [])))"
  using C10_empty_write [of "ex_handle\<lparr>started := True\<rparr>" refLib ex_busy]
        C10_empty_write [of ex_handle refLib ex_busy]
  by (simp add: ex_handle_def ex_busy_def refLib_def)

text \<open>
  Claim C6, as stated, fails. \<open>File\<close>, which opens the entry, returns a handle and no error
  for a path that holds a \<open>0x00\<close> byte: the path is checked where the entry is started. And
  \<open>Write\<close> sets \<open>started\<close> before \<open>startFile\<close> has succeeded, so that after the first
  \<open>Write\<close> has failed with the illegal-path error the next \<open>Write\<close> on the handle appends
  a chunk record, and \<open>Close\<close> appends the zero-length chunk and returns nil: bytes of the
  rejected entry are written.
\<close>

theorem C6_counterexample:
  "\<exists>fw wr1 fw2 wr2 fw3 wr3 fw4 wr4.
     File ex_idle (''a'' @ [NUL]) ex_opts = (Inr fw, wr1) \<and>
     Write refLib fw wr1 ''data'' = ((0, Some ErrIllegalPath), fw2, wr2) \<and> w wr2 = ''abc'' \<and>
     Write refLib fw2 wr2 ''data'' = ((4, None), fw3, wr3) \<and>
     w wr3 = ''abc4'' @ [NUL] @ ''data'' \<and>
     CloseFile refLib fw3 wr3 = (None, fw4, wr4) \<and>
     w wr4 = ''abc4'' @ [NUL] @ ''data0'' @ [NUL]"
  by (simp add: File_def Write_def startFile_def Writer_write_def CloseFile_def ex_idle_def
      ex_opts_def Itoa_def digits.simps digit_def)

text \<open>
  Claim C6, amended. On an open Writer, an entry whose path contains a \<open>0x00\<close> byte is
  rejected with the illegal-path error where the entry is started (\<open>startFile\<close>), before any
  byte of it is written: \<open>startFile\<close> leaves the Writer as it was. \<open>File\<close> returns a handle;
  the first \<open>Write\<close> and the \<open>Close\<close> on that handle, and \<open>Directory\<close>, fail with that
  error and the bytes of the stream are unchanged. No call on a handle for such a path, on
  any Writer, appends a header record: \<open>Write\<close> appends nothing or one chunk record,
  \<open>Close\<close> nothing or the zero-length chunk. This covers the path that is the single byte
  \<open>0x00\<close>.
\<close>

theorem C6_nul_path_rejected:
  assumes "NUL \<in> set path" and "\<not> closed wr"
  shows "startFile L wr \<lparr>hPath = path, hUser = u, hGroup = g, hMode = m\<rparr> = (Some ErrIllegalPath, wr)
       \<and> (\<not> writing wr \<longrightarrow>
            (\<exists>fw wr1. File wr path opts = (Inr fw, wr1) \<and> w wr1 = w wr \<and>
               fst (Write L fw wr1 dat) = (0, Some ErrIllegalPath) \<and>
               w (snd (snd (Write L fw wr1 dat))) = w wr \<and>
               fst (CloseFile L fw wr1) = Some ErrIllegalPath \<and>
               w (snd (snd (CloseFile L fw wr1))) = w wr)
            \<and> fst (Directory L wr path opts) = Some ErrIllegalPath
            \<and> w (snd (Directory L wr path opts)) = w wr)
       \<and> (hPath (hdr fw') = path \<longrightarrow>
            (w (snd (snd (Write L fw' wr' dat))) = w wr'
             \<or> w (snd (snd (Write L fw' wr' dat))) = w wr' @ chunk_record dat)
            \<and> (w (snd (snd (CloseFile L fw' wr'))) = w wr'
               \<or> w (snd (snd (CloseFile L fw' wr'))) = w wr' @ chunk_record []))"
proof (intro conjI impI)
  show "startFile L wr \<lparr>hPath = path, hUser = u, hGroup = g, hMode = m\<rparr> = (Some ErrIllegalPath, wr)"
    using assms by (simp add: startFile_def)
  show "fst (Directory L wr path opts) = Some ErrIllegalPath" if "\<not> writing wr"
    using assms that by (simp add: startFile_def File_def Write_def CloseFile_def Directory_def)
  show "w (snd (Directory L wr path opts)) = w wr" if "\<not> writing wr"
    using assms that by (simp add: startFile_def File_def Write_def CloseFile_def Directory_def)
  show "\<exists>fw wr1. File wr path opts = (Inr fw, wr1) \<and> w wr1 = w wr \<and>
               fst (Write L fw wr1 dat) = (0, Some ErrIllegalPath) \<and>
               w (snd (snd (Write L fw wr1 dat))) = w wr \<and>
               fst (CloseFile L fw wr1) = Some ErrIllegalPath \<and>
               w (snd (snd (CloseFile L fw wr1))) = w wr" if "\<not> writing wr"
    using assms that by (simp add: startFile_def File_def Write_def CloseFile_def)
next
  assume p: "hPath (hdr fw') = path"
  have s: "w (snd (startFile L wr' (hdr fw'))) = w wr'" "fst (startFile L wr' (hdr fw')) \<noteq> None"
    using assms(1) p by (simp_all add: startFile_def)
  have ww: "w (snd (Writer_write wr' n d)) = w wr' \<or>
            w (snd (Writer_write wr' n d)) = w wr' @ chunk_record d" for n d
    by (simp add: Writer_write_def chunk_record_def)
  show "w (snd (snd (Write L fw' wr' dat))) = w wr'
        \<or> w (snd (snd (Write L fw' wr' dat))) = w wr' @ chunk_record dat"
    using s ww[of "fileNo fw'" dat]
    by (cases "startFile L wr' (hdr fw')"; cases "Writer_write wr' (fileNo fw') dat")
       (auto simp: Write_def split: option.splits)
  show "w (snd (snd (CloseFile L fw' wr'))) = w wr'
        \<or> w (snd (snd (CloseFile L fw' wr'))) = w wr' @ chunk_record []"
    using s ww[of "fileNo fw'" "[]"]
    by (cases "startFile L wr' (hdr fw')"; cases "Writer_write wr' (fileNo fw') []")
       (auto simp: CloseFile_def Write_def split: option.splits)
qed

theorem C6_witness:
  "startFile refLib ex_idle \<lparr>hPath = [NUL], hUser = [], hGroup = [], hMode = 0\<rparr>
     = (Some ErrIllegalPath, ex_idle)
   \<and> (\<exists>fw wr1. File ex_idle [NUL] ex_opts = (Inr fw, wr1) \<and> w wr1 = ''abc'' \<and>
               fst (Write refLib fw wr1 ''data'') = (0, Some ErrIllegalPath) \<and>
               w (snd (snd (Write refLib fw wr1 ''data''))) = ''abc'' \<and>
               fst (CloseFile refLib fw wr1) = Some ErrIllegalPath \<and>
               w (snd (snd (CloseFile refLib fw wr1))) = ''abc'')
   \<and> fst (Directory refLib ex_idle [NUL] ex_opts) = Some ErrIllegalPath
   \<and> w (snd (Directory refLib ex_idle [NUL] ex_opts)) = ''abc''
   \<and> w (snd (snd (Write refLib (ex_handle\<lparr>started := True, hdr := terminator\<rparr>) ex_busy ''data'')))
       = ''abc4'' @ [NUL] @ ''data''
   \<and> w (snd (snd (CloseFile refLib (ex_handle\<lparr>started := True, hdr := terminator\<rparr>) ex_busy)))
       = ''abc0'' @ [NUL]"
proof -
  have 1: "w (snd (snd (Write refLib (ex_handle\<lparr>started := True, hdr := terminator\<rparr>) ex_busy ''data'')))
       = ''abc4'' @ [NUL] @ ''data''"
    by (simp add: Write_def Writer_write_def ex_handle_def ex_busy_def Itoa_def digits.simps
        digit_def)
  have 2: "w (snd (snd (CloseFile refLib (ex_handle\<lparr>started := True, hdr := terminator\<rparr>) ex_busy)))
       = ''abc0'' @ [NUL]"
    by (simp add: CloseFile_def Writer_write_def ex_handle_def ex_busy_def Itoa_0)
  from C6_nul_path_rejected [of "[NUL]" ex_idle refLib "[]" "[]" 0 ex_opts "''data''"
         "ex_handle\<lparr>started := True, hdr := terminator\<rparr>" ex_busy] 1 2
  show ?thesis by (simp add: ex_idle_def terminator_def)
qed

text \<open>
  Claim C8, as stated, fails on a Writer that \<open>Close\<close> has closed successfully: \<open>File\<close>
  still returns a handle and no error, an empty \<open>Write\<close> on a started handle returns
  \<open>(0, nil)\<close>, and a second \<open>Close\<close> returns nil after appending a second terminator
  header.
\<close>

theorem C8_counterexample:
  "fst (Close refLib ex_idle) = None
   \<and> fst (File (snd (Close refLib ex_idle)) ''a.txt'' ex_opts) =
       Inr \<lparr>fileNo = 4, started = False,
            hdr = \<lparr>hPath = ''a.txt'', hUser = ''usr'', hGroup = ''grp'', hMode = 420\<rparr>\<rparr>
   \<and> fst (Write refLib (ex_handle\<lparr>started := True\<rparr>) (snd (Close refLib ex_idle)) []) = (0, None)
   \<and> fst (Close refLib (snd (Close refLib ex_idle))) = None
   \<and> w (snd (Close refLib (snd (Close refLib ex_idle)))) =
       w (snd (Close refLib ex_idle)) @ refEncFileHeader terminator @ [NUL]"
  by (simp add: Close_def ex_idle_def ex_opts_def ex_handle_def File_def Write_def refLib_def)

text \<open>
  Claim C8, amended. After a successful \<open>Close\<close> the Writer is closed and stays closed.
  On a closed Writer, starting an entry (\<open>startFile\<close>, reached by the first \<open>Write\<close> or the
  \<open>Close\<close> on a handle that was not started) and every \<open>Write\<close> of a non-empty slice on any
  handle fail with the stream-closed error; \<open>Directory\<close> fails with it when no entry is open;
  and none of \<open>File\<close>, \<open>Write\<close>, \<open>Close\<close> on a handle and \<open>Directory\<close> appends a
  byte to the output. (What a second \<open>Writer.Close\<close> does is left open.)
\<close>

theorem C8_closed_writer:
  "(Close L wr0 = (None, wr) \<longrightarrow> closed wr)
   \<and> (closed wr \<longrightarrow>
        startFile L wr h = (Some ErrClosed, wr)
        \<and> (\<not> started fw \<or> dat \<noteq> [] \<longrightarrow> fst (Write L fw wr dat) = (0, Some ErrClosed))
        \<and> (\<not> started fw \<longrightarrow> fst (CloseFile L fw wr) = Some ErrClosed)
        \<and> (\<not> writing wr \<longrightarrow> fst (Directory L wr path opts) = Some ErrClosed)
        \<and> w (snd (File wr path opts)) = w wr \<and> closed (snd (File wr path opts))
        \<and> w (snd (snd (Write L fw wr dat))) = w wr \<and> closed (snd (snd (Write L fw wr dat)))
        \<and> w (snd (snd (CloseFile L fw wr))) = w wr \<and> closed (snd (snd (CloseFile L fw wr)))
        \<and> w (snd (Directory L wr path opts)) = w wr \<and> closed (snd (Directory L wr path opts)))"
  by (auto simp: Close_def Let_def startFile_def Write_def CloseFile_def Directory_def File_def
      Writer_write_def split: if_splits)

theorem C8_witness:
  "closed (snd (Close refLib ex_idle))
   \<and> fst (Write refLib ex_handle (snd (Close refLib ex_idle)) ''data'') = (0, Some ErrClosed)
   \<and> fst (Write refLib (ex_handle\<lparr>started := True\<rparr>) (snd (Close refLib ex_idle)) ''data'')
       = (0, Some ErrClosed)
   \<and> fst (CloseFile refLib ex_handle (snd (Close refLib ex_idle))) = Some ErrClosed
   \<and> fst (Directory refLib (snd (Close refLib ex_idle)) ''d'' ex_opts) = Some ErrClosed
   \<and> w (snd (snd (Write refLib ex_handle (snd (Close refLib ex_idle)) ''data'')))
       = w (snd (Close refLib ex_idle))"
proof -
  have c: "Close refLib ex_idle = (None, snd (Close refLib ex_idle))"
    by (simp add: Close_def ex_idle_def)
  have n: "\<not> writing (snd (Close refLib ex_idle))"
    by (simp add: Close_def ex_idle_def)
  have s: "\<not> started ex_handle" by (simp add: ex_handle_def)
  from C8_closed_writer [of refLib ex_idle "snd (Close refLib ex_idle)" "hdr ex_handle"
          ex_handle "''data''" "''d''" ex_opts] c n s
       C8_closed_writer [of refLib ex_idle "snd (Close refLib ex_idle)" "hdr ex_handle"
          "ex_handle\<lparr>started := True\<rparr>" "''data''" "''d''" ex_opts]
  show ?thesis by simp
qed

subsection \<open>The Writer with the deferred start\<close>

text \<open>
  The statements of claims C3, C4, C5, C6 and C10 on this version. A handle is started when
  its \<open>fileNo\<close> is not \<open>0\<close>; the entry counter is assumed not to wrap around to \<open>0\<close>.
\<close>

lemma WriteD_one_chunk_record:
  assumes "\<not> closed wr" and "writing wr" and "fileNoD fw = curFile wr" and "fileNoD fw \<noteq> 0"
    and "dat \<noteq> []"
  shows "WriteD L fw wr dat = ((length dat, None), fw, emit wr (chunk_writes dat))"
  using assms by (simp add: WriteD_def Writer_write_def chunk_writes_def emit_def)

lemma WriteD_first:
  assumes "\<not> closed wr" and "\<not> writing wr" and "fileNoD fw = 0" and "curFile wr + 1 \<noteq> 0"
    and "NUL \<notin> set (hPath (hdrD fw))"
  shows "WriteD L fw wr dat =
     ((length dat, None), fw\<lparr>fileNoD := curFile wr + 1\<rparr>,
      emit (wr\<lparr>curFile := curFile wr + 1, writing := True\<rparr>)
        (header_writes L (hdrD fw) @ (if dat = [] then [] else chunk_writes dat)))"
  using assms
  by (simp add: WriteD_def startFileD_def Writer_write_def chunk_writes_def header_writes_def
      Let_def emit_def)

lemma WriteD_empty_started:
  "fileNoD fw \<noteq> 0 \<Longrightarrow> WriteD L fw wr [] = ((0, None), fw, wr)"
  by (simp add: WriteD_def)

lemma CloseFileD_open_close:
  assumes "\<not> closed wr" and "\<not> writing wr" and "curFile wr + 1 \<noteq> 0" and "NUL \<notin> set path"
  shows "CloseFileD L (FileD wr path opts) wr =
     (None, (FileD wr path opts)\<lparr>fileNoD := curFile wr + 1\<rparr>,
      (emit (wr\<lparr>curFile := curFile wr + 1, writing := True\<rparr>)
         (header_writes L (hdrD (FileD wr path opts)) @ chunk_writes []))\<lparr>writing := False\<rparr>)"
proof -
  let ?fw = "FileD wr path opts"
  have 0: "fileNoD ?fw = 0" "NUL \<notin> set (hPath (hdrD ?fw))"
    using assms by (simp_all add: FileD_def)
  have 1: "WriteD L ?fw wr [] =
     ((0, None), ?fw\<lparr>fileNoD := curFile wr + 1\<rparr>,
      emit (wr\<lparr>curFile := curFile wr + 1, writing := True\<rparr>) (header_writes L (hdrD ?fw)))"
    using WriteD_first[OF assms(1,2) 0(1) assms(3) 0(2), of L "[]"] by simp
  show ?thesis using assms 0
    by (simp add: CloseFileD_def 1 Writer_write_def chunk_writes_def header_writes_def emit_def)
qed

lemma startFileD_busy:
  assumes "writing wr" and "\<not> closed wr"
  shows "startFileD L wr h = (Inl ErrAlreadyStreaming, wr)"
    and "fileNoD fw = 0 \<Longrightarrow> WriteD L fw wr dat = ((0, Some ErrAlreadyStreaming), fw, wr)"
    and "fileNoD fw = 0 \<Longrightarrow> CloseFileD L fw wr = (Some ErrAlreadyStreaming, fw, wr)"
    and "DirectoryD L wr path opts = (Some ErrAlreadyStreaming, wr)"
  using assms
  by (simp_all add: startFileD_def WriteD_def CloseFileD_def DirectoryD_def FileD_def)

lemma startFileD_nul_path:
  assumes "NUL \<in> set (hPath h)" and "\<not> closed wr" and "\<not> writing wr"
  shows "startFileD L wr h = (Inl ErrIllegalPath, wr)"
    and "fileNoD fw = 0 \<Longrightarrow> hdrD fw = h \<Longrightarrow>
         WriteD L fw wr dat = ((0, Some ErrIllegalPath), fw, wr)"
    and "fileNoD fw = 0 \<Longrightarrow> hdrD fw = h \<Longrightarrow>
         CloseFileD L fw wr = (Some ErrIllegalPath, fw, wr)"
  using assms by (simp_all add: startFileD_def WriteD_def CloseFileD_def)

section \<open>The Reader: sequencing and errors\<close>

lemma Next_blocked:
  "rclosed r \<or> \<not> ready r \<Longrightarrow>
   Next L r = (Return False,
               r\<lparr>fr := None, err := (if rclosed r then None else Some ErrNextBeforeFinish)\<rparr>)"
  by (auto simp: Next_def)

lemma Read_keeps_rclosed: "Read f r k = (x, f', r') \<Longrightarrow> rclosed r' = rclosed r"
  unfolding Read_def
  by (auto simp: Let_def split: if_splits prod.splits option.splits sum.splits)

lemma Read_ready_done:
  "Read f r k = (x, f', r') \<Longrightarrow> ready r \<longrightarrow> rdone f \<Longrightarrow> ready r' \<longrightarrow> rdone f'"
  unfolding Read_def
  by (auto simp: Let_def split: if_splits prod.splits option.splits sum.splits)

lemma Next_True_state:
  "Next L r = (Return True, r1) \<Longrightarrow>
   \<not> rclosed r1 \<and> (\<exists>f. fr r1 = Some f \<and> (ready r1 \<longrightarrow> rdone f))"
  unfolding Next_def
  by (auto simp: Let_def split: if_splits prod.splits option.splits outcome.splits
      dest: Read_keeps_rclosed Read_ready_done)

lemma FileRead_state:
  assumes "\<not> rclosed r \<and> (\<exists>f. fr r = Some f \<and> (ready r \<longrightarrow> rdone f))"
  shows "\<not> rclosed (snd (FileRead r k)) \<and>
         (\<exists>f. fr (snd (FileRead r k)) = Some f \<and> (ready (snd (FileRead r k)) \<longrightarrow> rdone f))"
proof -
  from assms obtain f where f: "fr r = Some f" "ready r \<longrightarrow> rdone f" and c: "\<not> rclosed r"
    by blast
  obtain x f' r' where rd: "Read f r k = (x, f', r')" by (cases "Read f r k") auto
  from Read_keeps_rclosed[OF rd] Read_ready_done[OF rd f(2)] c f(1) rd
  show ?thesis by (simp add: FileRead_def)
qed

lemma FileReads_state:
  "\<not> rclosed r \<and> (\<exists>f. fr r = Some f \<and> (ready r \<longrightarrow> rdone f)) \<Longrightarrow>
   \<not> rclosed (FileReads r ks) \<and>
   (\<exists>f. fr (FileReads r ks) = Some f \<and> (ready (FileReads r ks) \<longrightarrow> rdone f))"
proof (induction ks arbitrary: r)
  case Nil
  then show ?case by simp
next
  case (Cons k ks)
  from Cons.IH[OF FileRead_state[OF Cons.prems, of k]] show ?case by simp
qed

text \<open>
  Claim C5. While an entry is open on a Writer (\<open>writing\<close>), \<open>File\<close> and \<open>Directory\<close>
  fail with the sequencing error and leave the Writer, and so the output, as it was.
  Symmetrically, after a \<open>Next\<close> that returned true and any reads through the handle that
  have not reached the zero-length chunk (the handle is not done), \<open>Next\<close> returns false
  with the sequencing error, and the Reader is unchanged but for \<open>fr\<close> and \<open>err\<close>: no
  input is consumed.
\<close>

theorem C5_one_entry_at_a_time:
  "(writing wr \<longrightarrow>
      File wr path opts = (Inl ErrOpenBeforeFinish, wr) \<and>
      Directory L wr path opts = (Some ErrOpenBeforeFinish, wr))
   \<and> (fst (Next L r0) = Return True \<and>
        fr (FileReads (snd (Next L r0)) ks) = Some f \<and> \<not> rdone f \<longrightarrow>
        Next L (FileReads (snd (Next L r0)) ks) =
          (Return False,
           (FileReads (snd (Next L r0)) ks)\<lparr>fr := None, err := Some ErrNextBeforeFinish\<rparr>))"
proof (intro conjI impI)
  assume "writing wr"
  then show "File wr path opts = (Inl ErrOpenBeforeFinish, wr)"
    by (simp add: File_def)
next
  assume "writing wr"
  then show "Directory L wr path opts = (Some ErrOpenBeforeFinish, wr)"
    by (simp add: Directory_def File_def)
next
  let ?r2 = "FileReads (snd (Next L r0)) ks"
  assume a: "fst (Next L r0) = Return True \<and> fr ?r2 = Some f \<and> \<not> rdone f"
  then have "Next L r0 = (Return True, snd (Next L r0))"
    by (metis prod.collapse)
  from FileReads_state[OF Next_True_state[OF this], of ks] a
  have "\<not> rclosed ?r2" and "\<not> ready ?r2" by auto
  then show "Next L ?r2 = (Return False, ?r2\<lparr>fr := None, err := Some ErrNextBeforeFinish\<rparr>)"
    using Next_blocked[of ?r2 L] by simp
qed

theorem C5_witness:
  "File ex_busy ''b.txt'' ex_opts = (Inl ErrOpenBeforeFinish, ex_busy)
   \<and> Directory refLib ex_busy ''d'' ex_opts = (Some ErrOpenBeforeFinish, ex_busy)
   \<and> fst (Next refLib ex_reader) = Return True
   \<and> fst (FileRead (snd (Next refLib ex_reader)) 2) = Return (''he'', None)
   \<and> Next refLib (FileReads (snd (Next refLib ex_reader)) [2]) =
        (Return False,
         (FileReads (snd (Next refLib ex_reader)) [2])\<lparr>fr := None, err := Some ErrNextBeforeFinish\<rparr>)
   \<and> stream (snd (Next refLib (FileReads (snd (Next refLib ex_reader)) [2]))) =
        ''llo0'' @ [NUL] @ refEncFileHeader terminator @ [NUL]"
proof -
  have w: "writing ex_busy" by (simp add: ex_busy_def)
  have n: "fst (Next refLib ex_reader) = Return True" by code_simp
  have rd: "fst (FileRead (snd (Next refLib ex_reader)) 2) = Return (''he'', None)" by code_simp
  have f: "fr (FileReads (snd (Next refLib ex_reader)) [2]) =
             Some \<lparr>rhdr = \<lparr>hPath = ''a.txt'', hUser = [], hGroup = [], hMode = 0\<rparr>,
                   rdone = False, chunkRem = 3\<rparr>"
    by code_simp
  have s: "stream (FileReads (snd (Next refLib ex_reader)) [2]) =
             ''llo0'' @ [NUL] @ refEncFileHeader terminator @ [NUL]"
    by code_simp
  from C5_one_entry_at_a_time [of ex_busy "''b.txt''" ex_opts refLib ex_reader "[2]"
         "\<lparr>rhdr = \<lparr>hPath = ''a.txt'', hUser = [], hGroup = [], hMode = 0\<rparr>,
                   rdone = False, chunkRem = 3\<rparr>"] w n f
  have 1: "File ex_busy ''b.txt'' ex_opts = (Inl ErrOpenBeforeFinish, ex_busy)"
    and 2: "Next refLib (FileReads (snd (Next refLib ex_reader)) [2]) =
        (Return False,
         (FileReads (snd (Next refLib ex_reader)) [2])\<lparr>fr := None, err := Some ErrNextBeforeFinish\<rparr>)"
    by simp_all
  from C5_one_entry_at_a_time [of ex_busy "''d''" ex_opts refLib ex_reader "[2]"
         "\<lparr>rhdr = \<lparr>hPath = ''a.txt'', hUser = [], hGroup = [], hMode = 0\<rparr>,
                   rdone = False, chunkRem = 3\<rparr>"] w
  have 3: "Directory refLib ex_busy ''d'' ex_opts = (Some ErrOpenBeforeFinish, ex_busy)"
    by simp
  show ?thesis using 1 2 3 n rd s by simp
qed

lemma Read_ready_EOF:
  "Read f r k = (x, f', r') \<Longrightarrow> \<not> ready r \<Longrightarrow> ready r' \<Longrightarrow> x = Return ([], Some EOF)"
  unfolding Read_def
  by (auto simp: Let_def split: if_splits prod.splits option.splits sum.splits)

lemma Next_error_blocked:
  "Next L r = (Return False, r1) \<Longrightarrow> err r1 \<noteq> None \<Longrightarrow> rclosed r1 \<or> \<not> ready r1"
  unfolding Next_def
  by (auto simp: Let_def split: if_splits prod.splits option.splits outcome.splits
      dest: Read_ready_EOF)

lemma Nexts_blocked:
  assumes "rclosed r \<or> \<not> ready r"
  shows "Next L (Nexts L n r) =
         (Return False,
          r\<lparr>fr := None, err := (if rclosed r then None else Some ErrNextBeforeFinish)\<rparr>)"
  using assms
proof (induction n arbitrary: r)
  case 0
  then show ?case by (simp add: Next_blocked)
next
  case (Suc n)
  let ?r' = "r\<lparr>fr := None, err := (if rclosed r then None else Some ErrNextBeforeFinish)\<rparr>"
  have "rclosed ?r' \<or> \<not> ready ?r'" using Suc.prems by simp
  from Suc.IH[OF this] show ?case using Suc.prems by (simp add: Next_blocked)
qed

subsection \<open>A program and the handles it holds\<close>

text \<open>
  A program that reads a stream holds the \<open>Reader\<close> and the handles that \<open>r.File()\<close> has
  returned to it; a handle is a pointer, so that a \<open>Read\<close> on it changes the one
  \<open>FileReader\<close> behind it. \<open>handles\<close> lists these \<open>FileReader\<close>s in the order in which
  they were created: \<open>Next\<close> adds the one that \<open>r.fr\<close> points to when it returns, and
  \<open>r.fr\<close>, when it is not nil, points to the last one. The program calls \<open>Next\<close>, or
  \<open>Read\<close> on the handle of a given index with a buffer of a given size; there is no call
  for an index that has no handle.
\<close>

record client =
  rd :: Reader
  handles :: "FileReader list"

datatype call = CallNext | CallRead nat nat

definition start :: "Reader \<Rightarrow> client" where
  "start r = \<lparr>rd = r, handles = []\<rparr>"

definition step :: "lib \<Rightarrow> client \<Rightarrow> call \<Rightarrow> client" where
  "step L c a =
     (case a of
        CallNext \<Rightarrow>
          (case Next L (rd c) of
             (res, r') \<Rightarrow>
               \<lparr>rd = r',
                handles = (case fr r' of None \<Rightarrow> handles c | Some f \<Rightarrow> handles c @ [f])\<rparr>)
      | CallRead i k \<Rightarrow>
          if i < length (handles c) then
            (case Read (handles c ! i) (rd c) k of
               (res, f', r') \<Rightarrow>
                 \<lparr>rd = (if fr r' \<noteq> None \<and> Suc i = length (handles c)
                        then r'\<lparr>fr := Some f'\<rparr> else r'),
                  handles = (handles c)[i := f']\<rparr>)
          else c)"

definition run :: "lib \<Rightarrow> client \<Rightarrow> call list \<Rightarrow> client" where
  "run L c calls = foldl (step L) c calls"

text \<open>
  Only the last handle can be open, and none is when the Reader is ready for the next
  header.
\<close>

definition handles_ok :: "client \<Rightarrow> bool" where
  "handles_ok c \<longleftrightarrow>
     list_all rdone (butlast (handles c)) \<and> (ready (rd c) \<longrightarrow> list_all rdone (handles c))"

definition ex_two :: Reader where
  "ex_two =
     \<lparr>ready = True, rclosed = False,
      stream = refEncFileHeader \<lparr>hPath = ''a.txt'', hUser = [], hGroup = [], hMode = 0\<rparr>
               @ [NUL] @ ''5'' @ [NUL] @ ''hello'' @ ''0'' @ [NUL]
               @ refEncFileHeader \<lparr>hPath = ''b.txt'', hUser = [], hGroup = [], hMode = 0\<rparr>
               @ [NUL] @ ''0'' @ [NUL]
               @ refEncFileHeader terminator @ [NUL],
      rcloser = None, fr = None, err = None\<rparr>"

definition ex_cut :: Reader where
  "ex_cut =
     \<lparr>ready = True, rclosed = False,
      stream = refEncFileHeader \<lparr>hPath = ''a.txt'', hUser = [], hGroup = [], hMode = 0\<rparr>
               @ [NUL] @ ''5'' @ [NUL] @ ''hello'' @ ''0'' @ [NUL] @ ''{'',
      rcloser = None, fr = None, err = None\<rparr>"

lemma Read_done: "rdone f \<Longrightarrow> Read f r k = (Return ([], Some EOF), f, r)"
  by (simp add: Read_def)

lemma Read_not_ready_done:
  "Read f r k = (x, f', r') \<Longrightarrow> \<not> ready r \<Longrightarrow> ready r' \<longrightarrow> rdone f'"
  unfolding Read_def
  by (auto simp: Let_def split: if_splits prod.splits option.splits sum.splits)

lemma Next_handle:
  "Next L r = (x, r') \<Longrightarrow> fr r' = Some f \<Longrightarrow>
   ready r \<and> \<not> rclosed r \<and> (ready r' \<longrightarrow> rdone f)"
  unfolding Next_def
  by (auto simp: Let_def split: if_splits prod.splits option.splits outcome.splits
      dest: Read_not_ready_done)

lemma Next_False_no_handle: "Next L r = (Return False, r') \<Longrightarrow> fr r' = None"
  unfolding Next_def
  by (auto simp: Let_def split: if_splits prod.splits option.splits outcome.splits)

lemma Next_other_error:
  "Next L r = (Return False, r') \<Longrightarrow> err r' = Some e \<Longrightarrow> e \<noteq> ErrNextBeforeFinish \<Longrightarrow>
   ready r \<and> \<not> rclosed r"
  unfolding Next_def
  by (auto simp: Let_def split: if_splits)

lemma step_handles_ok:
  assumes "handles_ok c"
  shows "handles_ok (step L c a)"
proof (cases a)
  case CallNext
  obtain x r' where n: "Next L (rd c) = (x, r')" by (cases "Next L (rd c)") auto
  show ?thesis
  proof (cases "fr r'")
    case None
    have "ready r' \<longrightarrow> list_all rdone (handles c)"
    proof
      assume "ready r'"
      with n None have "ready (rd c)"
        unfolding Next_def
        by (auto simp: Let_def split: if_splits prod.splits option.splits outcome.splits)
      with assms show "list_all rdone (handles c)" by (simp add: handles_ok_def)
    qed
    with assms n None CallNext show ?thesis by (simp add: step_def handles_ok_def)
  next
    case (Some f)
    from Next_handle[OF n Some] assms have "list_all rdone (handles c)" "ready r' \<longrightarrow> rdone f"
      by (simp_all add: handles_ok_def)
    with n Some CallNext show ?thesis by (simp add: step_def handles_ok_def)
  qed
next
  case (CallRead i k)
  show ?thesis
  proof (cases "i < length (handles c)")
    case False
    with assms CallRead show ?thesis by (simp add: step_def)
  next
    case True
    let ?f = "handles c ! i"
    show ?thesis
    proof (cases "rdone ?f")
      case d: True
      have "(handles c)[i := ?f] = handles c" by simp
      with assms CallRead True d show ?thesis
        by (simp add: step_def Read_done handles_ok_def)
    next
      case nd: False
      obtain x f' r' where rdd: "Read ?f (rd c) k = (x, f', r')"
        by (cases "Read ?f (rd c) k") auto
      have last: "Suc i = length (handles c)"
      proof (rule ccontr)
        assume "Suc i \<noteq> length (handles c)"
        with True have "i < length (butlast (handles c))" by simp
        moreover from this have "butlast (handles c) ! i = ?f" by (simp add: nth_butlast)
        ultimately have "rdone ?f" using assms
          by (auto simp: handles_ok_def list_all_length)
        with nd show False by simp
      qed
      have nr: "\<not> ready (rd c)"
        using assms nd True by (auto simp: handles_ok_def list_all_length)
      have bl: "butlast ((handles c)[i := f']) = butlast (handles c)"
      proof -
        from last have "i = length (handles c) - 1" by simp
        then show ?thesis by (simp add: butlast_list_update)
      qed
      have all: "ready r' \<longrightarrow> list_all rdone ((handles c)[i := f'])"
      proof
        assume "ready r'"
        with Read_not_ready_done[OF rdd nr] have "rdone f'" by simp
        moreover have "(handles c)[i := f'] = butlast (handles c) @ [f']"
          using last True
          by (metis Suc_inject append_butlast_last_id diff_Suc_1 length_butlast
              list_update_length length_greater_0_conv less_nat_zero_code list.size(3))
        ultimately show "list_all rdone ((handles c)[i := f'])"
          using assms by (simp add: handles_ok_def)
      qed
      from assms bl all CallRead True rdd show ?thesis
        by (simp add: step_def handles_ok_def)
    qed
  qed
qed

lemma run_handles_ok: "handles_ok c \<Longrightarrow> handles_ok (run L c calls)"
  unfolding run_def
  by (induction calls arbitrary: c) (simp_all add: step_handles_ok)

lemma start_handles_ok: "handles_ok (start r)"
  by (simp add: handles_ok_def start_def)

text \<open>
  A client whose handles are all done and whose Reader is closed or not ready: no call
  changes it, but for \<open>fr\<close> and \<open>err\<close> of the Reader.
\<close>

lemma step_dead:
  assumes "list_all rdone (handles c)" and "rclosed (rd c) \<or> \<not> ready (rd c)"
    and "fr (rd c) = None"
  shows "handles (step L c a) = handles c
       \<and> (rd (step L c a) = rd c
          \<or> rd (step L c a) =
              (rd c)\<lparr>fr := None,
                     err := (if rclosed (rd c) then None else Some ErrNextBeforeFinish)\<rparr>)"
proof (cases a)
  case CallNext
  with assms show ?thesis by (simp add: step_def Next_blocked)
next
  case (CallRead i k)
  show ?thesis
  proof (cases "i < length (handles c)")
    case False
    with CallRead show ?thesis by (simp add: step_def)
  next
    case True
    with assms(1) have "rdone (handles c ! i)" by (simp add: list_all_length)
    with CallRead True assms(3) show ?thesis by (simp add: step_def Read_done)
  qed
qed

lemma run_dead:
  assumes "list_all rdone (handles c)" and "rclosed r1 \<or> \<not> ready r1" and "fr r1 = None"
    and "rd c = r1 \<or> rd c = r1\<lparr>fr := None, err := (if rclosed r1 then None else Some ErrNextBeforeFinish)\<rparr>"
  shows "handles (run L c calls) = handles c
       \<and> (rd (run L c calls) = r1
          \<or> rd (run L c calls) =
              r1\<lparr>fr := None, err := (if rclosed r1 then None else Some ErrNextBeforeFinish)\<rparr>)"
  using assms
proof (induction calls arbitrary: c)
  case Nil
  then show ?case by (simp add: run_def)
next
  case (Cons a calls)
  let ?E = "if rclosed r1 then None else Some ErrNextBeforeFinish"
  have c: "rclosed (rd c) \<or> \<not> ready (rd c)" "fr (rd c) = None"
    using Cons.prems by auto
  from step_dead[OF Cons.prems(1) c, of L a]
  have h: "handles (step L c a) = handles c"
    and r: "rd (step L c a) = r1 \<or> rd (step L c a) = r1\<lparr>fr := None, err := ?E\<rparr>"
    using Cons.prems(3,4) by auto
  have "handles (run L (step L c a) calls) = handles (step L c a)
       \<and> (rd (run L (step L c a) calls) = r1
          \<or> rd (run L (step L c a) calls) = r1\<lparr>fr := None, err := ?E\<rparr>)"
    using Cons.prems h r by (intro Cons.IH) simp_all
  with h show ?case by (simp add: run_def)
qed

text \<open>
  Claim C9, as stated, fails in two ways. \<open>Next\<close> clears \<open>err\<close> on entry and returns at
  once on a closed Reader, so after the error raised once the terminator header was seen
  (here: excess data behind it) the following \<open>Next\<close> returns false with \<open>Err\<close> back to
  nil. And the sequencing error is not terminal: on a stream of the files \<open>a.txt\<close> and
  \<open>b.txt\<close>, \<open>Next\<close> called before \<open>a.txt\<close> is read fails with it, and once the body of
  \<open>a.txt\<close> has been read through its handle \<open>Next\<close> returns true and yields \<open>b.txt\<close>.
\<close>

theorem C9_counterexample:
  "fst (Next refLib ex_excess) = Return False
   \<and> Err (snd (Next refLib ex_excess)) = Some ErrExcessData
   \<and> fst (Next refLib (snd (Next refLib ex_excess))) = Return False
   \<and> Err (snd (Next refLib (snd (Next refLib ex_excess)))) = None
   \<and> fst (Next refLib (rd (run refLib (start ex_two) [CallNext]))) = Return False
   \<and> Err (snd (Next refLib (rd (run refLib (start ex_two) [CallNext]))))
       = Some ErrNextBeforeFinish
   \<and> fst (Next refLib (rd (run refLib (start ex_two)
                              [CallNext, CallNext, CallRead 0 8, CallRead 0 8])))
       = Return True
   \<and> map_option Path (fr (snd (Next refLib (rd (run refLib (start ex_two)
                              [CallNext, CallNext, CallRead 0 8, CallRead 0 8])))))
       = Some ''b.txt''"
  by code_simp

text \<open>
  Claim C9, amended. Take any program: the calls \<open>calls\<close> from a Reader \<open>r0\<close> of which
  the program holds no handle yet (as after \<open>NewReader\<close>), after which \<open>Next\<close> returns
  false with an error \<open>e\<close>. Each of the following \<open>Next\<close> calls made with no \<open>Read\<close> in
  between returns false and leaves the Reader as the failed call left it, but for
  \<open>fr = nil\<close> and \<open>err\<close>. When \<open>e\<close> is not the sequencing error (a truncation, format or
  integrity error) this holds after any further calls \<open>later\<close>, \<open>Read\<close> calls on any handle
  included: the handles stay as they were, no input is consumed and no entry is yielded.
  After the sequencing error, and any further calls, \<open>Next\<close> fails in the same way as long
  as the Reader is not ready, that is as long as no \<open>Read\<close> has reached the end of the body
  of the pending entry (lemma \<open>Read_ready_EOF\<close>). \<open>Err\<close> is then the sequencing error,
  except when the Reader is closed (the error came after the terminator header): then it is
  nil.
\<close>

theorem C9_error_blocks_next:
  assumes "c = run L (start r0) calls" and "Next L (rd c) = (Return False, r1)"
    and "err r1 = Some e"
  shows "Next L (Nexts L n r1) =
           (Return False,
            r1\<lparr>fr := None, err := (if rclosed r1 then None else Some ErrNextBeforeFinish)\<rparr>)
       \<and> (e \<noteq> ErrNextBeforeFinish \<longrightarrow>
            handles (run L (c\<lparr>rd := r1\<rparr>) later) = handles c
          \<and> Next L (rd (run L (c\<lparr>rd := r1\<rparr>) later)) =
              (Return False,
               r1\<lparr>fr := None, err := (if rclosed r1 then None else Some ErrNextBeforeFinish)\<rparr>))
       \<and> (\<not> ready (rd (run L (c\<lparr>rd := r1\<rparr>) later)) \<longrightarrow>
            Next L (rd (run L (c\<lparr>rd := r1\<rparr>) later)) =
              (Return False,
               (rd (run L (c\<lparr>rd := r1\<rparr>) later))
                 \<lparr>fr := None,
                  err := (if rclosed (rd (run L (c\<lparr>rd := r1\<rparr>) later)) then None
                          else Some ErrNextBeforeFinish)\<rparr>))"
proof (intro conjI impI)
  let ?E = "if rclosed r1 then None else Some ErrNextBeforeFinish"
  have b: "rclosed r1 \<or> \<not> ready r1"
    using Next_error_blocked[OF assms(2)] assms(3) by simp
  show "Next L (Nexts L n r1) = (Return False, r1\<lparr>fr := None, err := ?E\<rparr>)"
    using Nexts_blocked[OF b] .
  show "Next L (rd (run L (c\<lparr>rd := r1\<rparr>) later)) =
              (Return False,
               (rd (run L (c\<lparr>rd := r1\<rparr>) later))
                 \<lparr>fr := None,
                  err := (if rclosed (rd (run L (c\<lparr>rd := r1\<rparr>) later)) then None
                          else Some ErrNextBeforeFinish)\<rparr>)"
    if "\<not> ready (rd (run L (c\<lparr>rd := r1\<rparr>) later))"
    using that by (intro Next_blocked) simp
  assume e: "e \<noteq> ErrNextBeforeFinish"
  have ok: "handles_ok c"
    unfolding assms(1) by (intro run_handles_ok start_handles_ok)
  have "ready (rd c)" using Next_other_error[OF assms(2,3) e] by simp
  with ok have d: "list_all rdone (handles (c\<lparr>rd := r1\<rparr>))" by (simp add: handles_ok_def)
  have f: "fr r1 = None" using Next_False_no_handle[OF assms(2)] .
  have "rd (c\<lparr>rd := r1\<rparr>) = r1 \<or> rd (c\<lparr>rd := r1\<rparr>) = r1\<lparr>fr := None, err := ?E\<rparr>" by simp
  from run_dead[OF d b f this, of L later]
  have h: "handles (run L (c\<lparr>rd := r1\<rparr>) later) = handles c"
    and r: "rd (run L (c\<lparr>rd := r1\<rparr>) later) = r1
            \<or> rd (run L (c\<lparr>rd := r1\<rparr>) later) = r1\<lparr>fr := None, err := ?E\<rparr>"
    by simp_all
  show "handles (run L (c\<lparr>rd := r1\<rparr>) later) = handles c" by (rule h)
  from r b show "Next L (rd (run L (c\<lparr>rd := r1\<rparr>) later)) =
                   (Return False, r1\<lparr>fr := None, err := ?E\<rparr>)"
    by (auto simp: Next_blocked)
qed

theorem C9_witness:
  "Next refLib (rd (run refLib (start ex_cut) [CallNext, CallRead 0 8, CallRead 0 8])) =
     (Return False, ex_cut\<lparr>ready := False, stream := [], err := Some ErrUnexpectedEOF\<rparr>)
   \<and> Next refLib (Nexts refLib 2
        (ex_cut\<lparr>ready := False, stream := [], err := Some ErrUnexpectedEOF\<rparr>)) =
     (Return False, ex_cut\<lparr>ready := False, stream := [], err := Some ErrNextBeforeFinish\<rparr>)
   \<and> handles (run refLib
        ((run refLib (start ex_cut) [CallNext, CallRead 0 8, CallRead 0 8])
           \<lparr>rd := ex_cut\<lparr>ready := False, stream := [], err := Some ErrUnexpectedEOF\<rparr>\<rparr>)
        [CallRead 0 4, CallNext, CallRead 0 1]) =
       [\<lparr>rhdr = \<lparr>hPath = ''a.txt'', hUser = [], hGroup = [], hMode = 0\<rparr>,
         rdone = True, chunkRem = 0\<rparr>]
   \<and> Next refLib (rd (run refLib
        ((run refLib (start ex_cut) [CallNext, CallRead 0 8, CallRead 0 8])
           \<lparr>rd := ex_cut\<lparr>ready := False, stream := [], err := Some ErrUnexpectedEOF\<rparr>\<rparr>)
        [CallRead 0 4, CallNext, CallRead 0 1])) =
     (Return False, ex_cut\<lparr>ready := False, stream := [], err := Some ErrNextBeforeFinish\<rparr>)
   \<and> Next refLib (rd (run refLib (start ex_two) [CallNext])) =
       (Return False,
        (rd (run refLib (start ex_two) [CallNext]))\<lparr>fr := None, err := Some ErrNextBeforeFinish\<rparr>)
   \<and> fst (Next refLib (rd (run refLib
        ((run refLib (start ex_two) [CallNext])
           \<lparr>rd := (rd (run refLib (start ex_two) [CallNext]))
                   \<lparr>fr := None, err := Some ErrNextBeforeFinish\<rparr>\<rparr>)
        [CallRead 0 2]))) = Return False
   \<and> Err (snd (Next refLib (rd (run refLib
        ((run refLib (start ex_two) [CallNext])
           \<lparr>rd := (rd (run refLib (start ex_two) [CallNext]))
                   \<lparr>fr := None, err := Some ErrNextBeforeFinish\<rparr>\<rparr>)
        [CallRead 0 2])))) = Some ErrNextBeforeFinish"
proof -
  let ?d = "run refLib (start ex_two) [CallNext]"
  let ?q1 = "(rd ?d)\<lparr>fr := None, err := Some ErrNextBeforeFinish\<rparr>"
  let ?d2 = "run refLib (?d\<lparr>rd := ?q1\<rparr>) [CallRead 0 2]"
  have 4: "Next refLib (rd ?d) = (Return False, ?q1)" by code_simp
  have 5: "err ?q1 = Some ErrNextBeforeFinish" by simp
  have 6: "\<not> ready (rd ?d2)" by code_simp
  have 7: "\<not> rclosed (rd ?d2)" by code_simp
  from C9_error_blocks_next[OF refl 4 5, of 0 "[CallRead 0 2]"] 6 7
  have 8: "fst (Next refLib (rd ?d2)) = Return False"
    and 9: "Err (snd (Next refLib (rd ?d2))) = Some ErrNextBeforeFinish"
    by (simp_all add: Err_def)
  let ?c = "run refLib (start ex_cut) [CallNext, CallRead 0 8, CallRead 0 8]"
  let ?r1 = "ex_cut\<lparr>ready := False, stream := [], err := Some ErrUnexpectedEOF\<rparr>"
  have 1: "Next refLib (rd ?c) = (Return False, ?r1)" by code_simp
  have 2: "err ?r1 = Some ErrUnexpectedEOF" by simp
  have 3: "handles ?c = [\<lparr>rhdr = \<lparr>hPath = ''a.txt'', hUser = [], hGroup = [], hMode = 0\<rparr>,
         rdone = True, chunkRem = 0\<rparr>]" by code_simp
  from C9_error_blocks_next[OF refl 1 2, of 2 "[CallRead 0 4, CallNext, CallRead 0 1]"] 1 3
  have "Next refLib (Nexts refLib 2 ?r1) =
          (Return False, ex_cut\<lparr>ready := False, stream := [], err := Some ErrNextBeforeFinish\<rparr>)"
    and "handles (run refLib (?c\<lparr>rd := ?r1\<rparr>) [CallRead 0 4, CallNext, CallRead 0 1]) =
           [\<lparr>rhdr = \<lparr>hPath = ''a.txt'', hUser = [], hGroup = [], hMode = 0\<rparr>,
             rdone = True, chunkRem = 0\<rparr>]"
    and "Next refLib (rd (run refLib (?c\<lparr>rd := ?r1\<rparr>) [CallRead 0 4, CallNext, CallRead 0 1])) =
          (Return False, ex_cut\<lparr>ready := False, stream := [], err := Some ErrNextBeforeFinish\<rparr>)"
    by (simp_all add: ex_cut_def)
  with 1 4 8 9 show ?thesis by simp
qed

section \<open>The round trip\<close>

lemma ReadString_delim:
  "NUL \<notin> set s \<Longrightarrow> ReadString (s @ NUL # rest) = ((s @ [NUL], None), rest)"
proof -
  assume n: "NUL \<notin> set s"
  have t: "takeWhile (\<lambda>c. c \<noteq> NUL) (s @ NUL # rest) = s"
    using n by (induction s) auto
  have d: "dropWhile (\<lambda>c. c \<noteq> NUL) (s @ NUL # rest) = NUL # rest"
    using n by (induction s) auto
  show ?thesis by (simp add: ReadString_def t d)
qed

lemma ReadString_no_delim: "NUL \<notin> set s \<Longrightarrow> ReadString s = ((s, Some EOF), [])"
  by (simp add: ReadString_def)

lemma digit_val_digit: "0 \<le> d \<Longrightarrow> d < 10 \<Longrightarrow> digit_val (digit d) = Some d"
proof -
  assume "0 \<le> d" "d < 10"
  then have "d \<in> {0, 1, 2, 3, 4, 5, 6, 7, 8, 9}" by (simp; arith)
  then show ?thesis
    by (auto simp: digit_def digit_val_def)
qed

lemma digits_val_append:
  "digits_val acc (xs @ ys) =
     (case digits_val acc xs of None \<Rightarrow> None | Some a \<Rightarrow> digits_val a ys)"
  by (induction xs arbitrary: acc) (auto split: option.splits)

lemma digits_val_digits: "0 \<le> n \<Longrightarrow> digits_val 0 (digits n) = Some n"
proof (induction n rule: digits.induct)
  case (1 n)
  show ?case
  proof (cases "n < 10")
    case True
    then show ?thesis using "1.prems" by (subst digits.simps) (simp add: digit_val_digit)
  next
    case False
    then have "digits_val 0 (digits (n div 10)) = Some (n div 10)"
      using "1.prems" by (intro "1.IH") simp_all
    then show ?thesis using False
      by (subst digits.simps) (simp add: digits_val_append digit_val_digit)
  qed
qed

lemma digits_not_Nil: "digits n \<noteq> []"
  by (subst digits.simps) simp

lemma digit_val_in_digits: "0 \<le> n \<Longrightarrow> c \<in> set (digits n) \<Longrightarrow> digit_val c \<noteq> None"
proof (induction n rule: digits.induct)
  case (1 n)
  show ?case
  proof (cases "n < 10")
    case True
    with "1.prems" show ?thesis
      by (subst (asm) digits.simps) (simp add: digit_val_digit)
  next
    case False
    from "1.prems"(2) False have "c \<in> set (digits (n div 10)) \<or> c = digit (n mod 10)"
      by (subst (asm) digits.simps) auto
    then show ?thesis
      using "1.IH"[OF False] "1.prems"(1) by (auto simp: digit_val_digit)
  qed
qed

lemma digit_val_NUL: "digit_val NUL = None"
  by (simp add: digit_val_def)

lemma digit_val_sign: "digit_val (CHR ''-'') = None" "digit_val (CHR ''+'') = None"
  by (simp_all add: digit_val_def)

lemma NUL_notin_Itoa_nat: "NUL \<notin> set (Itoa (int n))"
  using digit_val_in_digits[of "int n" NUL] by (auto simp: Itoa_def digit_val_NUL)

lemma Atoi_Itoa: "n < 2 ^ 63 \<Longrightarrow> Atoi (Itoa (int n)) = Inr (int n)"
proof -
  assume n: "n < 2 ^ 63"
  obtain c t where ct: "digits (int n) = c # t"
    using digits_not_Nil[of "int n"] by (cases "digits (int n)") auto
  then have "digit_val c \<noteq> None" using digit_val_in_digits[of "int n" c] by simp
  then have c: "c \<noteq> CHR ''-''" "c \<noteq> CHR ''+''" using digit_val_sign by auto
  have "int n < 2 ^ 63" using n by (metis of_nat_less_iff of_nat_numeral of_nat_power)
  then show ?thesis using ct c digits_val_digits[of "int n"]
    by (simp add: Atoi_def Itoa_def)
qed

lemma prepend_Nil: "prepend [] x = x"
  by (auto simp: prepend_def split: prod.splits outcome.splits)

lemma prepend_prepend: "prepend a (prepend b x) = prepend (a @ b) x"
  by (auto simp: prepend_def split: prod.splits outcome.splits)

lemma prepend_Return: "prepend d (Return (ds, e), y) = (Return (d @ ds, e), y)"
  by (simp add: prepend_def)

lemma Copy_step:
  "0 < k \<Longrightarrow> Read f r k = (Return (d, None), f', r') \<Longrightarrow> Copy k f r = prepend d (Copy k f' r')"
  by (subst Copy.simps) (auto simp: prepend_def split: prod.splits outcome.splits)

lemma Copy_stop:
  "0 < k \<Longrightarrow> Read f r k = (Return (d, Some e), f', r') \<Longrightarrow>
   Copy k f r = (Return (d, if e = EOF then None else Some e), f', r')"
  by (subst Copy.simps) simp

lemma Copy_cong_Read:
  "0 < k \<Longrightarrow> Read f r k = Read f' r' k \<Longrightarrow> Copy k f r = Copy k f' r'"
  by (subst Copy.simps, subst (2) Copy.simps) simp

lemma chunkRem_0_upd: "chunkRem f = 0 \<Longrightarrow> f\<lparr>chunkRem := 0\<rparr> = f"
  by simp

text \<open>Reading the payload of a chunk whose length has been parsed.\<close>

lemma Read_payload:
  assumes "\<not> rdone f" and "chunkRem f = int (length d)" and "d \<noteq> []" and "0 < k"
    and "stream r = d @ rest"
  shows "Read f r k =
     (Return (take k d, None), f\<lparr>chunkRem := int (length (drop k d))\<rparr>,
      r\<lparr>stream := drop k d @ rest\<rparr>)"
proof (cases "int k < chunkRem f")
  case True
  then have "k < length d" using assms by simp
  then show ?thesis using assms True
    by (simp add: Read_def Let_def streamRead_def)
next
  case False
  then have "length d \<le> k" using assms by simp
  then show ?thesis using assms False
    by (simp add: Read_def Let_def streamRead_def)
qed

lemma Copy_payload:
  assumes "0 < k" and "\<not> rdone f" and "chunkRem f = int (length d)" and "stream r = d @ rest"
  shows "Copy k f r = prepend d (Copy k (f\<lparr>chunkRem := 0\<rparr>) (r\<lparr>stream := rest\<rparr>))"
  using assms
proof (induction "length d" arbitrary: d f r rule: less_induct)
  case less
  show ?case
  proof (cases "d = []")
    case True
    with less.prems have "f\<lparr>chunkRem := 0\<rparr> = f" "r\<lparr>stream := rest\<rparr> = r" by simp_all
    then show ?thesis using True by (simp add: prepend_Nil)
  next
    case False
    let ?f1 = "f\<lparr>chunkRem := int (length (drop k d))\<rparr>"
    let ?r1 = "r\<lparr>stream := drop k d @ rest\<rparr>"
    have rd: "Read f r k = (Return (take k d, None), ?f1, ?r1)"
      using less.prems False by (intro Read_payload) simp_all
    have "length (drop k d) < length d" using False \<open>0 < k\<close> by simp
    from less.hyps[OF this \<open>0 < k\<close>, of ?f1 ?r1] less.prems
    have "Copy k ?f1 ?r1 = prepend (drop k d) (Copy k (f\<lparr>chunkRem := 0\<rparr>) (r\<lparr>stream := rest\<rparr>))"
      by simp
    then show ?thesis using Copy_step[OF \<open>0 < k\<close> rd] by (simp add: prepend_prepend)
  qed
qed

lemma Read_parse:
  assumes "\<not> rdone f" and "chunkRem f = 0" and "l \<noteq> 0"
    and "ReadString (stream r) = ((lstr, None), s')" and "Atoi (butlast lstr) = Inr l"
  shows "Read f r k = Read (f\<lparr>chunkRem := l\<rparr>) (r\<lparr>stream := s'\<rparr>) k"
  using assms by (simp add: Read_def)

lemma Copy_chunk:
  assumes "0 < k" and "\<not> rdone f" and "chunkRem f = 0" and "d \<noteq> []" and "length d < 2 ^ 63"
    and "stream r = chunk_record d @ rest"
  shows "Copy k f r = prepend d (Copy k f (r\<lparr>stream := rest\<rparr>))"
proof -
  let ?l = "int (length d)"
  have rs: "ReadString (stream r) = ((Itoa ?l @ [NUL], None), d @ rest)"
    using assms ReadString_delim[OF NUL_notin_Itoa_nat, of "length d" "d @ rest"]
    by (simp add: chunk_record_def)
  have at: "Atoi (butlast (Itoa ?l @ [NUL])) = Inr ?l"
    using assms by (simp add: Atoi_Itoa)
  have "Read f r k = Read (f\<lparr>chunkRem := ?l\<rparr>) (r\<lparr>stream := d @ rest\<rparr>) k"
    using assms by (intro Read_parse[OF _ _ _ rs at]) simp_all
  then have "Copy k f r = Copy k (f\<lparr>chunkRem := ?l\<rparr>) (r\<lparr>stream := d @ rest\<rparr>)"
    by (rule Copy_cong_Read[OF \<open>0 < k\<close>])
  also have "\<dots> = prepend d (Copy k (f\<lparr>chunkRem := ?l\<rparr>\<lparr>chunkRem := 0\<rparr>)
                                     (r\<lparr>stream := d @ rest\<rparr>\<lparr>stream := rest\<rparr>))"
    using assms by (intro Copy_payload) simp_all
  also have "f\<lparr>chunkRem := ?l\<rparr>\<lparr>chunkRem := 0\<rparr> = f" using assms by simp
  finally show ?thesis by simp
qed

lemma Read_end:
  assumes "\<not> rdone f" and "chunkRem f = 0" and "stream r = chunk_record [] @ rest"
  shows "Read f r k = (Return ([], Some EOF), f\<lparr>rdone := True\<rparr>, r\<lparr>stream := rest, ready := True\<rparr>)"
proof -
  have rs: "ReadString (stream r) = ((''0'' @ [NUL], None), rest)"
    using assms ReadString_delim[of "''0''" rest] by (simp add: chunk_record_Nil)
  have at: "Atoi ''0'' = Inr 0" by (simp add: Atoi_def digit_val_def)
  show ?thesis using assms rs at by (simp add: Read_def)
qed

lemma Copy_end:
  assumes "0 < k" and "\<not> rdone f" and "chunkRem f = 0" and "stream r = chunk_record [] @ rest"
  shows "Copy k f r = (Return ([], None), f\<lparr>rdone := True\<rparr>, r\<lparr>stream := rest, ready := True\<rparr>)"
  using Copy_stop[OF \<open>0 < k\<close> Read_end[OF assms(2-4), of k]] by simp

lemma Copy_body:
  assumes "0 < k" and "\<not> rdone f" and "chunkRem f = 0"
    and "list_all (\<lambda>d. length d < 2 ^ 63) ds" and "stream r = body_bytes ds @ rest"
  shows "Copy k f r =
     (Return (concat ds, None), f\<lparr>rdone := True\<rparr>, r\<lparr>stream := rest, ready := True\<rparr>)"
  using assms
proof (induction ds arbitrary: r)
  case Nil
  then show ?case using Copy_end[of k f r rest] by (simp add: body_bytes_def)
next
  case (Cons d ds)
  show ?case
  proof (cases "d = []")
    case True
    with Cons show ?thesis by (simp add: body_bytes_def)
  next
    case False
    let ?r1 = "r\<lparr>stream := body_bytes ds @ rest\<rparr>"
    have "Copy k f r = prepend d (Copy k f ?r1)"
      using Cons.prems False by (intro Copy_chunk) (simp_all add: body_bytes_def)
    moreover have "Copy k f ?r1 =
       (Return (concat ds, None), f\<lparr>rdone := True\<rparr>, ?r1\<lparr>stream := rest, ready := True\<rparr>)"
      using Cons.prems by (intro Cons.IH) simp_all
    ultimately show ?thesis by (simp add: prepend_Return)
  qed
qed

lemma Copy_done:
  "0 < k \<Longrightarrow> rdone f \<Longrightarrow> Copy k f r = (Return ([], None), f, r)"
  by (subst Copy.simps) (simp add: Read_def)

lemma prependE_Nil: "prependE [] x = x"
  by (auto simp: prependE_def split: prod.splits outcome.splits)

lemma prependE_prependE: "prependE a (prependE b x) = prependE (a @ b) x"
  by (auto simp: prependE_def split: prod.splits outcome.splits)

lemma fst_prependE_Return:
  "fst x = Return (res, e) \<Longrightarrow> fst (prependE es x) = Return (es @ res, e)"
  by (cases x) (simp add: prependE_def)

lemma Next_ignores: "Next L (r\<lparr>fr := x, err := y\<rparr>) = Next L r"
  by (simp add: Next_def)

lemma ReadFiles_ignores: "ReadFiles L k (r\<lparr>fr := x, err := y\<rparr>) = ReadFiles L k r"
  by (simp add: ReadFiles.simps[of L k "r\<lparr>fr := x, err := y\<rparr>"] ReadFiles.simps[of L k r]
      Next_ignores)

lemma ready_upd: "ready r \<Longrightarrow> r\<lparr>ready := True\<rparr> = r"
  by simp

lemma IsDirMode_OR: "IsDirMode (p OR ModeDir)"
proof -
  have "(p OR ModeDir) AND ModeDir = ModeDir" by (simp add: word_bw_comms word_ao_absorbs)
  moreover have "ModeDir \<noteq> 0" by (simp add: ModeDir_def)
  ultimately show ?thesis by (simp add: IsDirMode_def)
qed

lemma Next_file:
  assumes "ready r" and "\<not> rclosed r" and "stream r = header_record L h @ rest"
    and "header_codec_ok L h" and "hPath h \<noteq> [NUL]" and "\<not> IsDirMode (hMode h)"
  shows "Next L r =
     (Return True,
      r\<lparr>ready := False, stream := rest,
         fr := Some \<lparr>rhdr = h, rdone = False, chunkRem = 0\<rparr>, err := None\<rparr>)"
proof -
  have rs: "ReadString (stream r) = ((encFileHeader L h @ [NUL], None), rest)"
    using assms ReadString_delim[of "encFileHeader L h" rest]
    by (simp add: header_record_def header_codec_ok_def)
  show ?thesis using assms rs
    by (simp add: Next_def Let_def header_codec_ok_def IsDir_def)
qed

lemma Next_dir:
  assumes "ready r" and "\<not> rclosed r"
    and "stream r = header_record L h @ chunk_record [] @ rest"
    and "header_codec_ok L h" and "hPath h \<noteq> [NUL]" and "IsDirMode (hMode h)"
  shows "Next L r =
     (Return True,
      r\<lparr>ready := True, stream := rest,
         fr := Some \<lparr>rhdr = h, rdone = True, chunkRem = 0\<rparr>, err := None\<rparr>)"
proof -
  let ?f = "\<lparr>rhdr = h, rdone = False, chunkRem = 0\<rparr>"
  let ?r1 = "r\<lparr>fr := None, err := None, ready := False, stream := chunk_record [] @ rest,
               fr := Some ?f\<rparr>"
  have rs: "ReadString (stream r) = ((encFileHeader L h @ [NUL], None), chunk_record [] @ rest)"
    using assms ReadString_delim[of "encFileHeader L h" "chunk_record [] @ rest"]
    by (simp add: header_record_def header_codec_ok_def)
  have rd: "Read ?f ?r1 0 =
      (Return ([], Some EOF), ?f\<lparr>rdone := True\<rparr>, ?r1\<lparr>stream := rest, ready := True\<rparr>)"
    by (intro Read_end) simp_all
  show ?thesis using assms rs rd
    by (simp add: Next_def Let_def header_codec_ok_def IsDir_def)
qed

lemma Next_terminator:
  assumes "ready r" and "\<not> rclosed r" and "stream r = header_record L terminator"
    and "header_codec_ok L terminator" and "rcloser r = None \<or> rcloser r = Some None"
  shows "Next L r =
     (Return False, r\<lparr>ready := False, rclosed := True, stream := [], fr := None, err := None\<rparr>)"
proof -
  have rs: "ReadString (stream r) = ((encFileHeader L terminator @ [NUL], None), [])"
    using assms ReadString_delim[of "encFileHeader L terminator" "[]"]
    by (simp add: header_record_def header_codec_ok_def)
  have t: "hPath terminator = [NUL]" by (simp add: terminator_def)
  show ?thesis using assms rs t
    by (auto simp: Next_def Let_def header_codec_ok_def streamRead_def)
qed

lemma ReadFiles_terminator:
  assumes "ready r" and "\<not> rclosed r" and "stream r = header_record L terminator"
    and "header_codec_ok L terminator" and "rcloser r = None \<or> rcloser r = Some None"
  shows "fst (ReadFiles L k r) = Return ([], None)"
  by (subst ReadFiles.simps) (simp add: Next_terminator[OF assms] Err_def)

lemma header_of_path: "NUL \<notin> set (ePath e) \<Longrightarrow> hPath (header_of e) \<noteq> [NUL]"
  by (auto simp: header_of_def)

lemma ReadFiles_entry:
  assumes "0 < k" and "ready r" and "\<not> rclosed r" and "entry_ok L e"
    and "stream r = entry_bytes L e @ rest"
  shows "ReadFiles L k r = prependE [expected e] (ReadFiles L k (r\<lparr>stream := rest\<rparr>))"
proof -
  let ?h = "header_of e"
  have ok: "header_codec_ok L ?h" and p: "hPath ?h \<noteq> [NUL]"
    using assms header_of_path[of e] by (simp_all add: entry_ok_def)
  show ?thesis
  proof (cases "eDir e")
    case True
    define f where "f = \<lparr>rhdr = ?h, rdone = True, chunkRem = 0\<rparr>"
    define r1 where "r1 = r\<lparr>ready := True, stream := rest, fr := Some f, err := None\<rparr>"
    have d: "IsDirMode (hMode ?h)" using True by (simp add: header_of_def IsDirMode_OR)
    have s: "stream r = header_record L ?h @ chunk_record [] @ rest"
      using assms True by (simp add: entry_bytes_def)
    have n: "Next L r = (Return True, r1)"
      unfolding r1_def f_def by (rule Next_dir[OF assms(2,3) s ok p d])
    have fr: "fr r1 = Some f" by (simp add: r1_def)
    have c: "Copy k f r1 = (Return ([], None), f, r1)"
      using assms by (intro Copy_done) (simp_all add: f_def)
    have "r1\<lparr>fr := Some f\<rparr> = (r\<lparr>stream := rest\<rparr>)\<lparr>fr := Some f, err := None\<rparr>"
      using assms(2) by (simp add: r1_def)
    then have e: "ReadFiles L k (r1\<lparr>fr := Some f\<rparr>) = ReadFiles L k (r\<lparr>stream := rest\<rparr>)"
      by (simp only: ReadFiles_ignores)
    have x: "\<lparr>tPath = Path f, tDir = IsDir f, tData = [], tOpts = Opts f\<rparr> = expected e"
      using True d by (simp add: f_def expected_def Path_def IsDir_def Opts_def header_of_def)
    show ?thesis
      by (subst ReadFiles.simps)
         (simp add: n fr c e x prependE_def split: prod.splits outcome.splits)
  next
    case False
    define f0 where "f0 = \<lparr>rhdr = ?h, rdone = False, chunkRem = 0\<rparr>"
    define f where "f = f0\<lparr>rdone := True\<rparr>"
    define r1 where "r1 = r\<lparr>ready := False, stream := body_bytes (eWrites e) @ rest,
                             fr := Some f0, err := None\<rparr>"
    define r2 where "r2 = r1\<lparr>stream := rest, ready := True\<rparr>"
    have d: "\<not> IsDirMode (hMode ?h)" using False assms by (simp add: header_of_def entry_ok_def)
    have s: "stream r = header_record L ?h @ body_bytes (eWrites e) @ rest"
      using assms False by (simp add: entry_bytes_def)
    have n: "Next L r = (Return True, r1)"
      unfolding r1_def f0_def by (rule Next_file[OF assms(2,3) s ok p d])
    have fr: "fr r1 = Some f0" by (simp add: r1_def)
    have c: "Copy k f0 r1 = (Return (concat (eWrites e), None), f, r2)"
      unfolding f_def r2_def using assms
      by (intro Copy_body) (simp_all add: entry_ok_def f0_def r1_def)
    have "r2\<lparr>fr := Some f\<rparr> = (r\<lparr>stream := rest\<rparr>)\<lparr>fr := Some f, err := None\<rparr>"
      using assms(2) by (simp add: r2_def r1_def)
    then have e: "ReadFiles L k (r2\<lparr>fr := Some f\<rparr>) = ReadFiles L k (r\<lparr>stream := rest\<rparr>)"
      by (simp only: ReadFiles_ignores)
    have x: "\<lparr>tPath = Path f, tDir = IsDir f, tData = concat (eWrites e), tOpts = Opts f\<rparr>
             = expected e"
      using False d
      by (simp add: f_def f0_def expected_def Path_def IsDir_def Opts_def header_of_def)
    show ?thesis
      by (subst ReadFiles.simps)
         (simp add: n fr c e x prependE_def split: prod.splits outcome.splits)
  qed
qed

lemma ReadFiles_entries:
  assumes "0 < k" and "ready r" and "\<not> rclosed r" and "list_all (entry_ok L) es"
    and "stream r = concat (map (entry_bytes L) es) @ rest"
  shows "ReadFiles L k r = prependE (map expected es) (ReadFiles L k (r\<lparr>stream := rest\<rparr>))"
  using assms
proof (induction es arbitrary: r)
  case Nil
  then have "r\<lparr>stream := rest\<rparr> = r" by simp
  then show ?case by (simp add: prependE_Nil)
next
  case (Cons e es)
  let ?r1 = "r\<lparr>stream := concat (map (entry_bytes L) es) @ rest\<rparr>"
  have "ReadFiles L k r = prependE [expected e] (ReadFiles L k ?r1)"
    using Cons.prems by (intro ReadFiles_entry) simp_all
  moreover have "ReadFiles L k ?r1 =
      prependE (map expected es) (ReadFiles L k (?r1\<lparr>stream := rest\<rparr>))"
    using Cons.prems by (intro Cons.IH) simp_all
  ultimately show ?case by (simp add: prependE_prependE)
qed

lemma emit_small:
  assumes "held wr = length (w wr)" and "length (w wr) + length (concat ps) \<le> bufSize"
  shows "held (emit wr ps) = length (w wr) + length (concat ps)"
  using assms
proof (induction ps arbitrary: wr)
  case Nil
  then show ?case by simp
next
  case (Cons p ps)
  have "length p \<le> bufSize - held wr" using Cons.prems by simp
  then have h: "held (bufWrite wr p) = length (w (bufWrite wr p))"
    using Cons.prems(1) by (simp add: bufWrite_def hold_def)
  have "held (emit (bufWrite wr p) ps) = length (w (bufWrite wr p)) + length (concat ps)"
    using Cons.prems h by (intro Cons.IH) simp_all
  then show ?case by (simp add: emit_def)
qed

lemma concat_chunk_writes_map:
  "concat (concat (map chunk_writes xs)) = concat (map chunk_record xs)"
  by (induction xs) simp_all

lemma WriteEntry_emit:
  assumes "\<not> closed wr" and "\<not> writing wr" and "NUL \<notin> set (ePath e)"
  shows "\<exists>ps. WriteEntry L wr e =
                (None, (emit (wr\<lparr>writing := True, curFile := curFile wr + 1\<rparr>) ps)
                         \<lparr>writing := False\<rparr>)
              \<and> concat ps = entry_bytes L e"
proof -
  define opts where "opts = (if eDir e then (eOpts e)\<lparr>Permissions := Permissions (eOpts e) OR ModeDir\<rparr>
                             else eOpts e)"
  define wr1 where "wr1 = wr\<lparr>writing := True, curFile := curFile wr + 1\<rparr>"
  define fw where "fw = \<lparr>fileNo = curFile wr + 1, started = False, hdr = header_of e\<rparr>"
  have f: "File wr (ePath e) opts = (Inr fw, wr1)"
    using assms by (simp add: File_def fw_def wr1_def opts_def header_of_def)
  have pre1: "\<not> closed wr1" "writing wr1" "fileNo fw = curFile wr1"
    "started fw \<or> NUL \<notin> set (hPath (hdr fw))"
    using assms by (simp_all add: wr1_def fw_def header_of_def)
  show ?thesis
  proof (cases "eDir e")
    case True
    let ?ps = "header_writes L (hdr fw) @ chunk_writes []"
    from CloseFile_ok[OF pre1, of L] True f
    have "WriteEntry L wr e = (None, (emit wr1 ?ps)\<lparr>writing := False\<rparr>)"
      by (simp add: WriteEntry_def Directory_def opts_def fw_def)
    moreover have "concat ?ps = entry_bytes L e"
      using True by (simp add: entry_bytes_def fw_def)
    ultimately show ?thesis unfolding wr1_def by blast
  next
    case False
    define ds where "ds = eWrites e"
    define fw2 where "fw2 = fw\<lparr>started := started fw \<or> ds \<noteq> []\<rparr>"
    define ps1 where "ps1 = (if started fw \<or> ds = [] then [] else header_writes L (hdr fw))
                            @ concat (map chunk_writes (filter (\<lambda>d. d \<noteq> []) ds))"
    define ps2 where "ps2 = (if started fw2 then [] else header_writes L (hdr fw2))
                            @ chunk_writes []"
    define wr2 where "wr2 = emit wr1 ps1"
    have wa: "WriteAll L fw wr1 ds = (None, fw2, wr2)"
      unfolding fw2_def wr2_def ps1_def by (rule WriteAll_ok[OF pre1])
    have pre2: "\<not> closed wr2" "writing wr2" "fileNo fw2 = curFile wr2"
      "started fw2 \<or> NUL \<notin> set (hPath (hdr fw2))"
      using pre1 by (simp_all add: wr2_def fw2_def)
    have cf: "CloseFile L fw2 wr2 =
                (None, fw2\<lparr>started := True\<rparr>, (emit wr2 ps2)\<lparr>writing := False\<rparr>)"
      unfolding ps2_def by (rule CloseFile_ok[OF pre2])
    have "WriteEntry L wr e = (None, (emit wr1 (ps1 @ ps2))\<lparr>writing := False\<rparr>)"
      using wa cf f False
      by (simp add: WriteEntry_def opts_def ds_def emit_append wr2_def)
    moreover have "concat (ps1 @ ps2) = entry_bytes L e"
      using False
      by (auto simp: ps1_def ps2_def entry_bytes_def body_bytes_def ds_def fw2_def fw_def
          concat_chunk_writes_map)
    ultimately show ?thesis unfolding wr1_def by blast
  qed
qed

text \<open>
  Writing an entry appends its bytes; as long as everything written fits in the buffer,
  nothing leaves it.
\<close>

lemma WriteEntry_ok:
  assumes "\<not> closed wr" and "\<not> writing wr" and "NUL \<notin> set (ePath e)"
  shows "\<exists>wr'. WriteEntry L wr e = (None, wr') \<and> w wr' = w wr @ entry_bytes L e \<and>
               \<not> closed wr' \<and> \<not> writing wr' \<and> closer wr' = closer wr \<and> pre wr' = pre wr \<and>
               (held wr = length (w wr) \<and> length (w wr') \<le> bufSize \<longrightarrow>
                  held wr' = length (w wr'))"
proof -
  let ?wr1 = "wr\<lparr>writing := True, curFile := curFile wr + 1\<rparr>"
  from WriteEntry_emit[OF assms, of L] obtain ps
    where e: "WriteEntry L wr e = (None, (emit ?wr1 ps)\<lparr>writing := False\<rparr>)"
      and c: "concat ps = entry_bytes L e"
    by blast
  have "held (emit ?wr1 ps) = length (w ?wr1) + length (concat ps)"
    if "held wr = length (w wr)" "length (w wr) + length (concat ps) \<le> bufSize"
    using that by (intro emit_small) simp_all
  with e c assms(1) show ?thesis by simp
qed

lemma WriteEntries_ok:
  assumes "\<not> closed wr" and "\<not> writing wr" and "list_all (\<lambda>e. NUL \<notin> set (ePath e)) es"
  shows "\<exists>wr'. WriteEntries L wr es = (None, wr') \<and>
               w wr' = w wr @ concat (map (entry_bytes L) es) \<and>
               \<not> closed wr' \<and> \<not> writing wr' \<and> closer wr' = closer wr \<and> pre wr' = pre wr \<and>
               (held wr = length (w wr) \<and> length (w wr') \<le> bufSize \<longrightarrow>
                  held wr' = length (w wr'))"
  using assms
proof (induction es arbitrary: wr)
  case Nil
  then show ?case by simp
next
  case (Cons e es)
  have p: "NUL \<notin> set (ePath e)" "list_all (\<lambda>e. NUL \<notin> set (ePath e)) es"
    using Cons.prems by simp_all
  from WriteEntry_ok[OF Cons.prems(1,2) p(1), of L]
  obtain wr1 where 1: "WriteEntry L wr e = (None, wr1)"
    "w wr1 = w wr @ entry_bytes L e" "\<not> closed wr1" "\<not> writing wr1"
    "closer wr1 = closer wr" "pre wr1 = pre wr"
    "held wr = length (w wr) \<and> length (w wr1) \<le> bufSize \<longrightarrow> held wr1 = length (w wr1)"
    by blast
  from Cons.IH[OF 1(3,4) p(2)]
  obtain wr2 where 2: "WriteEntries L wr1 es = (None, wr2)"
    "w wr2 = w wr1 @ concat (map (entry_bytes L) es)" "\<not> closed wr2" "\<not> writing wr2"
    "closer wr2 = closer wr1" "pre wr2 = pre wr1"
    "held wr1 = length (w wr1) \<and> length (w wr2) \<le> bufSize \<longrightarrow> held wr2 = length (w wr2)"
    by blast
  have "length (w wr1) \<le> length (w wr2)" using 2(2) by simp
  with 1(7) 2(7)
  have "held wr = length (w wr) \<and> length (w wr2) \<le> bufSize \<longrightarrow> held wr2 = length (w wr2)"
    by simp
  with 1(1-6) 2(1-6) show ?case by simp
qed

lemma delivered_Flush [simp]: "delivered (Flush wr) = w wr"
  by (simp add: delivered_def Flush_def)

lemma NewWriter_plain:
  assumes "Compression sopts = []"
  shows "NewWriter L sopts =
           Inr (emit \<lparr>curFile = 0, writing = False, w = [], held = 0, closer = None,
                      closed = False, pre = []\<rparr>
                  [encStreamHeader L \<lparr>hVersion = 0, hCompression = Compression sopts\<rparr>, [NUL]])"
  using assms by (simp add: NewWriter_def emit_def)

lemma NewWriter_compressed:
  assumes "Compression sopts \<noteq> []"
    and "compress L (Compression sopts) (CompressionLevel sopts) = Inr z"
  shows "\<exists>wr. NewWriter L sopts = Inr wr \<and> w wr = [] \<and> held wr = 0 \<and>
              curFile wr = 0 \<and> \<not> closed wr \<and> \<not> writing wr \<and> closer wr = Some z \<and>
              pre wr = stream_header_record L sopts"
  using assms by (simp add: NewWriter_def stream_header_record_def Let_def)

lemma Encode_plain:
  assumes "Compression sopts = []" and "list_all (\<lambda>e. NUL \<notin> set (ePath e)) es"
  shows "Encode L sopts es = Inr (stream_header_record L sopts @ stream_bytes L es)"
proof -
  define wr where "wr = emit \<lparr>curFile = 0, writing = False, w = [], held = 0, closer = None,
                             closed = False, pre = []\<rparr>
                          [encStreamHeader L \<lparr>hVersion = 0, hCompression = Compression sopts\<rparr>, [NUL]]"
  have nw: "NewWriter L sopts = Inr wr"
    unfolding wr_def using assms(1) by (rule NewWriter_plain)
  have wr: "w wr = stream_header_record L sopts" "\<not> closed wr" "\<not> writing wr"
    "closer wr = None" "pre wr = []"
    by (simp_all add: wr_def stream_header_record_def)
  obtain wr' where 1: "WriteEntries L wr es = (None, wr')"
    "w wr' = w wr @ concat (map (entry_bytes L) es)" "\<not> closed wr'" "\<not> writing wr'"
    "closer wr' = closer wr" "pre wr' = pre wr"
    using WriteEntries_ok[of wr es L] assms wr by auto
  show ?thesis using nw 1 wr
    by (simp add: Encode_def Close_def sink_def stream_bytes_def header_record_def)
qed

lemma Encode_compressed:
  assumes "Compression sopts \<noteq> []"
    and "compress L (Compression sopts) (CompressionLevel sopts) = Inr z"
    and "list_all (\<lambda>e. NUL \<notin> set (ePath e)) es"
  shows "Encode L sopts es = Inr (stream_header_record L sopts @ compressed L z (stream_bytes L es))"
proof -
  from NewWriter_compressed[OF assms(1,2)] obtain wr where nw: "NewWriter L sopts = Inr wr"
    and wr: "w wr = []" "\<not> closed wr" "\<not> writing wr" "closer wr = Some z"
      "pre wr = stream_header_record L sopts"
    by blast
  obtain wr' where 1: "WriteEntries L wr es = (None, wr')"
    "w wr' = w wr @ concat (map (entry_bytes L) es)" "\<not> closed wr'" "\<not> writing wr'"
    "closer wr' = closer wr" "pre wr' = pre wr"
    using WriteEntries_ok[of wr es L] assms wr by auto
  show ?thesis using nw 1 wr
    by (simp add: Encode_def Close_def sink_def stream_bytes_def header_record_def)
qed

lemma NewReader_plain:
  assumes "stream_codec_ok L sopts" and "Compression sopts = []"
  shows "NewReader L (stream_header_record L sopts @ rest) =
     Inr \<lparr>ready = True, rclosed = False, stream = rest, rcloser = None, fr = None, err = None\<rparr>"
proof -
  let ?sh = "\<lparr>hVersion = 0, hCompression = Compression sopts\<rparr>"
  have "ReadString (stream_header_record L sopts @ rest) = ((encStreamHeader L ?sh @ [NUL], None), rest)"
    using assms ReadString_delim[of "encStreamHeader L ?sh" rest]
    by (simp add: stream_header_record_def stream_codec_ok_def)
  then show ?thesis using assms
    by (simp add: NewReader_def stream_codec_ok_def fmtVersion_def)
qed

lemma NewReader_compressed:
  assumes "stream_codec_ok L sopts" and "Compression sopts \<noteq> []"
    and "decompress L (Compression sopts) rest = Inr (b, c)"
  shows "NewReader L (stream_header_record L sopts @ rest) =
     Inr \<lparr>ready = True, rclosed = False, stream = b, rcloser = Some c, fr = None, err = None\<rparr>"
proof -
  let ?sh = "\<lparr>hVersion = 0, hCompression = Compression sopts\<rparr>"
  have "ReadString (stream_header_record L sopts @ rest) = ((encStreamHeader L ?sh @ [NUL], None), rest)"
    using assms ReadString_delim[of "encStreamHeader L ?sh" rest]
    by (simp add: stream_header_record_def stream_codec_ok_def)
  then show ?thesis using assms
    by (simp add: NewReader_def stream_codec_ok_def fmtVersion_def)
qed

lemma ReadFiles_stream:
  assumes "0 < k" and "ready r" and "\<not> rclosed r" and "list_all (entry_ok L) es"
    and "header_codec_ok L terminator" and "rcloser r = None \<or> rcloser r = Some None"
    and "stream r = stream_bytes L es"
  shows "fst (ReadFiles L k r) = Return (map expected es, None)"
proof -
  let ?r1 = "r\<lparr>stream := header_record L terminator\<rparr>"
  have "ReadFiles L k r = prependE (map expected es) (ReadFiles L k ?r1)"
    using assms by (intro ReadFiles_entries) (simp_all add: stream_bytes_def)
  moreover have "fst (ReadFiles L k ?r1) = Return ([], None)"
    using assms by (intro ReadFiles_terminator) simp_all
  ultimately show ?thesis using fst_prependE_Return[of "ReadFiles L k ?r1" "[]" None] by simp
qed

lemma entry_ok_path: "list_all (entry_ok L) es \<Longrightarrow> list_all (\<lambda>e. NUL \<notin> set (ePath e)) es"
  by (induction es) (auto simp: entry_ok_def)

text \<open>
  The round trip returns the mode it was given, but for the directory bit that
  \<open>Directory\<close> sets: the permission bits (\<open>os.ModePerm = 0777\<close>) are the same.
\<close>

lemma expected_perm_bits:
  "Permissions (tOpts (expected e)) AND 511 = Permissions (eOpts e) AND 511"
proof -
  have "ModeDir AND 511 = 0" by (simp add: ModeDir_def)
  then show ?thesis
    by (simp add: expected_def header_of_def bit.conj_disj_distrib2)
qed

text \<open>
  Claim C1, as stated, fails in two ways. A path without \<open>0x00\<close> byte that is not valid
  UTF-8 does not come back: \<open>encoding/json\<close> writes \<open>U+FFFD\<close> for each byte that is not part
  of a UTF-8 sequence, so the path \<open>0xFF\<close> is read as \<open>0xEF 0xBF 0xBD\<close>. And a file
  whose mode carries the directory bit is read as a directory: its body makes \<open>Next\<close> fail.
\<close>

theorem C1_counterexample:
  "(\<exists>bytes. Encode refLib ex_plain ex_not_utf8 = Inr bytes \<and>
      Decode refLib 4 bytes =
        Return ([\<lparr>tPath = [CHR 0xEF, CHR 0xBF, CHR 0xBD], tDir = False, tData = ''x'',
                  tOpts = \<lparr>Permissions = 420, User = [], Group = []\<rparr>\<rparr>], None))
   \<and> (\<exists>bytes. Encode refLib ex_plain ex_dir_bit = Inr bytes \<and>
      Decode refLib 4 bytes = Return ([], Some (ErrDirBody ''f'')))"
proof -
  have 1: "Encode refLib ex_plain ex_not_utf8 =
             Inr (stream_header_record refLib ex_plain @ stream_bytes refLib ex_not_utf8)"
    by (intro Encode_plain) (simp_all add: ex_plain_def ex_not_utf8_def)
  have 2: "Decode refLib 4 (stream_header_record refLib ex_plain @ stream_bytes refLib ex_not_utf8) =
        Return ([\<lparr>tPath = [CHR 0xEF, CHR 0xBF, CHR 0xBD], tDir = False, tData = ''x'',
                  tOpts = \<lparr>Permissions = 420, User = [], Group = []\<rparr>\<rparr>], None)"
    by code_simp
  have 3: "Encode refLib ex_plain ex_dir_bit =
             Inr (stream_header_record refLib ex_plain @ stream_bytes refLib ex_dir_bit)"
    by (intro Encode_plain) (simp_all add: ex_plain_def ex_dir_bit_def)
  have 4: "Decode refLib 4 (stream_header_record refLib ex_plain @ stream_bytes refLib ex_dir_bit) =
        Return ([], Some (ErrDirBody ''f''))"
    by code_simp
  show ?thesis using 1 2 3 4 by simp
qed

text \<open>
  Claim C1, amended. Take any list of well-formed entries: the path holds no \<open>0x00\<close> byte,
  the JSON codec returns the header unchanged (for \<open>encoding/json\<close>: path, user and group
  are valid UTF-8), and a file does not carry the directory bit in its mode. For every
  positive copy buffer size, without compression, with \<open>gzip\<close> at level \<open>0\<close> or at a level
  that gzip accepts, and with \<open>lz4\<close> at any level, the libraries decompressing what they
  have compressed: writing the entries in order with \<open>Directory\<close> and
  \<open>File\<close>/\<open>Write\<close>/\<open>Close\<close>, closing the Writer and reading the sink with \<open>NewReader\<close>
  and the \<open>Next\<close>/\<open>File\<close>/\<open>Read\<close> loop succeeds and returns, in order, the same paths,
  directory flags, users, groups and modes (a directory's with the directory bit set) and the
  concatenated bytes of each file, every directory body being empty; \<open>Err\<close> is nil at the
  end.
\<close>

theorem C1_round_trip:
  assumes "0 < k" and "list_all (entry_ok L) es" and "header_codec_ok L terminator"
    and "stream_codec_ok L sopts" and "library_ok L sopts (stream_bytes L es)"
  shows "\<exists>bytes. Encode L sopts es = Inr bytes \<and>
                 Decode L k bytes = Return (map expected es, None)"
proof (cases "Compression sopts = []")
  case True
  let ?r = "\<lparr>ready = True, rclosed = False, stream = stream_bytes L es, rcloser = None,
             fr = None, err = None\<rparr>"
  have e: "Encode L sopts es = Inr (stream_header_record L sopts @ stream_bytes L es)"
    using True assms entry_ok_path by (intro Encode_plain) auto
  have n: "NewReader L (stream_header_record L sopts @ stream_bytes L es) = Inr ?r"
    using True assms by (intro NewReader_plain) auto
  have "fst (ReadFiles L k ?r) = Return (map expected es, None)"
    using assms by (intro ReadFiles_stream) simp_all
  then show ?thesis using e n by (simp add: Decode_def)
next
  case False
  with assms(5) obtain z where z: "compress L (Compression sopts) (CompressionLevel sopts) = Inr z"
    and d: "decompress L (Compression sopts) (compressed L z (stream_bytes L es))
            = Inr (stream_bytes L es, None)"
    by (auto simp: library_ok_def compress_def decompress_def split: if_splits)
  let ?r = "\<lparr>ready = True, rclosed = False, stream = stream_bytes L es, rcloser = Some None,
             fr = None, err = None\<rparr>"
  have e: "Encode L sopts es =
           Inr (stream_header_record L sopts @ compressed L z (stream_bytes L es))"
    using False z assms entry_ok_path by (intro Encode_compressed) auto
  have n: "NewReader L (stream_header_record L sopts @ compressed L z (stream_bytes L es)) = Inr ?r"
    using False assms d by (intro NewReader_compressed) auto
  have "fst (ReadFiles L k ?r) = Return (map expected es, None)"
    using assms by (intro ReadFiles_stream) simp_all
  then show ?thesis using e n by (simp add: Decode_def)
qed

theorem C1_witness:
  "(\<exists>bytes. Encode refLib ex_plain ex_entries = Inr bytes \<and>
      Decode refLib 4 bytes = Return (ex_expected, None))
   \<and> (\<exists>bytes. Encode refLib ex_gzip_default ex_entries = Inr bytes \<and>
      Decode refLib 4 bytes = Return (ex_expected, None))
   \<and> (\<exists>bytes. Encode refLib ex_gzip ex_entries = Inr bytes \<and>
      Decode refLib 4 bytes = Return (ex_expected, None))
   \<and> (\<exists>bytes. Encode refLib ex_lz4 ex_entries = Inr bytes \<and>
      Decode refLib 4 bytes = Return (ex_expected, None))"
proof -
  have k: "0 < (4::nat)" by simp
  have c: "list_all (\<lambda>e. header_codec_ok refLib (header_of e)) ex_entries" by code_simp
  have "list_all (\<lambda>e. NUL \<notin> set (ePath e)
     \<and> (eDir e \<or> \<not> IsDirMode (Permissions (eOpts e)))
     \<and> list_all (\<lambda>d. length d < 2 ^ 63) (eWrites e)) ex_entries"
    by (simp add: ex_entries_def ex_opts_def IsDirMode_def ModeDir_def)
  with c have e: "list_all (entry_ok refLib) ex_entries"
    by (simp add: entry_ok_def ex_entries_def)
  have t: "header_codec_ok refLib terminator" by code_simp
  have p: "stream_codec_ok refLib ex_plain" by code_simp
  have gd: "stream_codec_ok refLib ex_gzip_default" by code_simp
  have g: "stream_codec_ok refLib ex_gzip" by code_simp
  have l: "stream_codec_ok refLib ex_lz4" by code_simp
  have zp: "library_ok refLib ex_plain (stream_bytes refLib ex_entries)"
    by (simp add: library_ok_def ex_plain_def)
  have zgd: "library_ok refLib ex_gzip_default (stream_bytes refLib ex_entries)"
    by (simp add: library_ok_def refLib_def refGunzip_def ex_gzip_default_def)
  have zg: "library_ok refLib ex_gzip (stream_bytes refLib ex_entries)"
    by (simp add: library_ok_def refLib_def refGunzip_def ex_gzip_def)
  have zl: "library_ok refLib ex_lz4 (stream_bytes refLib ex_entries)"
    by (simp add: library_ok_def refLib_def ex_lz4_def)
  have x: "map expected ex_entries = ex_expected"
    by (simp add: ex_entries_def ex_expected_def expected_def header_of_def ex_opts_def
        ModeDir_def)
  from C1_round_trip[OF k e t p zp] C1_round_trip[OF k e t gd zgd]
       C1_round_trip[OF k e t g zg] C1_round_trip[OF k e t l zl]
  show ?thesis unfolding x by blast
qed

section \<open>Truncated streams\<close>

lemma Read_unfold:
  "Read f r k =
     (if rdone f then (Return ([], Some EOF), f, r)
      else if chunkRem f = 0 then
        (case ReadString (stream r) of
           ((lstr, Some e), s') \<Rightarrow> (Return ([], Some (unexpected e)), f, r\<lparr>stream := s'\<rparr>)
         | ((lstr, None), s') \<Rightarrow>
             (case Atoi (butlast lstr) of
                Inl e \<Rightarrow> (Return ([], Some e), f, r\<lparr>stream := s'\<rparr>)
              | Inr l \<Rightarrow>
                  if l = 0
                  then (Return ([], Some EOF), f\<lparr>rdone := True\<rparr>, r\<lparr>stream := s', ready := True\<rparr>)
                  else payload (f\<lparr>chunkRem := l\<rparr>) (r\<lparr>stream := s'\<rparr>) k))
      else payload f r k)"
  by (auto simp: Read_def payload_def Let_def split: prod.splits option.splits sum.splits)

lemma ReadString_prefix:
  assumes "NUL \<in> set s"
  shows "ReadString (s @ X) = (fst (ReadString s), snd (ReadString s) @ X)"
proof -
  have t: "takeWhile (\<lambda>c. c \<noteq> NUL) (s @ X) = takeWhile (\<lambda>c. c \<noteq> NUL) s"
    using assms by (intro takeWhile_append1[of NUL]) simp_all
  have d: "dropWhile (\<lambda>c. c \<noteq> NUL) (s @ X) = dropWhile (\<lambda>c. c \<noteq> NUL) s @ X"
    using assms by (intro dropWhile_append1[of NUL]) simp_all
  have "dropWhile (\<lambda>c. c \<noteq> NUL) s \<noteq> []" using assms by simp
  then show ?thesis using assms by (simp add: ReadString_def t d)
qed

lemma payload_prefix:
  assumes "payload f r k = (x, f1, r1)" and "\<not> rdone f"
  shows "payload f (extended X r) k = (x, f1, extended X r1)
       \<or> (\<exists>d. x = Return (d, Some ErrUnexpectedEOF))
       \<or> (\<exists>d. x = Return (d, None) \<and> stream r1 = [] \<and> 0 < chunkRem f1 \<and> \<not> rdone f1 \<and> 0 < k)"
proof -
  define n where "n = (if chunkRem f > int k then int k else chunkRem f)"
  show ?thesis
  proof (cases "n < 0")
    case True
    then have "payload f r k = (Panic, f, r)" "payload f (extended X r) k = (Panic, f, extended X r)"
      by (simp_all add: payload_def n_def Let_def)
    then show ?thesis using assms by simp
  next
    case False
    define m where "m = nat n"
    have pt: "payload f r k =
        (case streamRead (stream r) m of
           ((d, e), s') \<Rightarrow>
             (Return (d, map_option unexpected e),
              f\<lparr>chunkRem := chunkRem f - int (length d)\<rparr>, r\<lparr>stream := s'\<rparr>))"
      using False by (simp add: payload_def n_def m_def Let_def)
    have pf: "payload f (extended X r) k =
        (case streamRead (stream r @ X) m of
           ((d, e), s') \<Rightarrow>
             (Return (d, map_option unexpected e),
              f\<lparr>chunkRem := chunkRem f - int (length d)\<rparr>, (extended X r)\<lparr>stream := s'\<rparr>))"
      using False by (simp add: payload_def n_def m_def Let_def extended_def)
    consider "m = 0" | "0 < m" "stream r = []" | "0 < m" "m \<le> length (stream r)" "stream r \<noteq> []"
      | "0 < m" "stream r \<noteq> []" "length (stream r) < m"
      by (cases "stream r = []"; cases "m = 0"; cases "m \<le> length (stream r)") auto
    then show ?thesis
    proof cases
      case 1
      have "streamRead (stream r) m = (([], None), stream r)"
        "streamRead (stream r @ X) m = (([], None), stream r @ X)"
        using 1 by (simp_all add: streamRead_def)
      then show ?thesis using assms pt pf by (auto simp: extended_def)
    next
      case 2
      have "streamRead (stream r) m = (([], Some EOF), [])"
        using 2 by (simp add: streamRead_def)
      then have "x = Return ([], Some ErrUnexpectedEOF)"
        using assms pt by (simp add: unexpected_def)
      then show ?thesis by blast
    next
      case 3
      have "streamRead (stream r) m = ((take m (stream r), None), drop m (stream r))"
        "streamRead (stream r @ X) m = ((take m (stream r), None), drop m (stream r) @ X)"
        using 3 by (simp_all add: streamRead_def)
      then show ?thesis using assms pt pf by (auto simp: extended_def)
    next
      case 4
      have k: "0 < k" using 4 False by (auto simp: m_def n_def split: if_splits)
      have c: "int (length (stream r)) < chunkRem f"
        using 4 False by (auto simp: m_def n_def split: if_splits)
      have "streamRead (stream r) m = ((stream r, None), [])"
        using 4 by (simp add: streamRead_def)
      then have "x = Return (stream r, None)" "stream r1 = []"
        "chunkRem f1 = chunkRem f - int (length (stream r))" "rdone f1 = rdone f"
        using assms pt by auto
      then show ?thesis using k c assms(2) by auto
    qed
  qed
qed

lemma Read_prefix:
  assumes "Read f r k = (x, f1, r1)"
  shows "Read f (extended X r) k = (x, f1, extended X r1)
       \<or> (\<exists>d. x = Return (d, Some ErrUnexpectedEOF))
       \<or> (\<exists>d. x = Return (d, None) \<and> stream r1 = [] \<and> 0 < chunkRem f1 \<and> \<not> rdone f1 \<and> 0 < k)"
proof (cases "rdone f")
  case True
  then show ?thesis using assms by (auto simp: Read_unfold extended_def)
next
  case nd: False
  show ?thesis
  proof (cases "chunkRem f = 0")
    case False
    then have "payload f r k = (x, f1, r1)" using assms nd by (simp add: Read_unfold)
    from payload_prefix[OF this nd, of X] show ?thesis
      using False nd by (simp add: Read_unfold[of f "extended X r"])
  next
    case True
    show ?thesis
    proof (cases "NUL \<in> set (stream r)")
      case False
      then have "x = Return ([], Some ErrUnexpectedEOF)"
        using assms nd True by (simp add: Read_unfold ReadString_def unexpected_def)
      then show ?thesis by blast
    next
      case n: True
      obtain lstr s' where rs: "ReadString (stream r) = ((lstr, None), s')"
        using n by (simp add: ReadString_def)
      have rsx: "ReadString (stream (extended X r)) = ((lstr, None), s' @ X)"
        using ReadString_prefix[OF n, of X] rs by (simp add: extended_def)
      show ?thesis
      proof (cases "Atoi (butlast lstr)")
        case (Inl e)
        then show ?thesis using assms nd True rs rsx
          by (auto simp: Read_unfold extended_def)
      next
        case (Inr l)
        show ?thesis
        proof (cases "l = 0")
          case True
          then show ?thesis using assms nd \<open>chunkRem f = 0\<close> rs rsx Inr
            by (auto simp: Read_unfold extended_def)
        next
          case False
          let ?f = "f\<lparr>chunkRem := l\<rparr>" and ?r = "r\<lparr>stream := s'\<rparr>"
          have p: "payload ?f ?r k = (x, f1, r1)"
            using assms nd \<open>chunkRem f = 0\<close> rs Inr False by (simp add: Read_unfold)
          have e: "extended X ?r = (extended X r)\<lparr>stream := s' @ X\<rparr>"
            by (simp add: extended_def)
          have "Read f (extended X r) k = payload ?f (extended X ?r) k"
            using nd \<open>chunkRem f = 0\<close> rsx Inr False by (simp add: Read_unfold e)
          with payload_prefix[OF p, of X] nd show ?thesis by simp
        qed
      qed
    qed
  qed
qed

lemma Read_starved:
  "\<not> rdone f \<Longrightarrow> 0 < chunkRem f \<Longrightarrow> stream r = [] \<Longrightarrow> 0 < k \<Longrightarrow>
   Read f r k = (Return ([], Some ErrUnexpectedEOF), f, r)"
  by (simp add: Read_unfold payload_def streamRead_def unexpected_def Let_def)

lemma Copy_prefix:
  assumes "0 < k" and "Copy k f (extended X r) = (Return (d, None), f', rf)"
  shows "(\<exists>rt. Copy k f r = (Return (d, None), f', rt) \<and> rf = extended X rt)
       \<or> (\<exists>d' f'' r''. Copy k f r = (Return (d', Some ErrUnexpectedEOF), f'', r''))"
  using assms
proof (induction "length (stream r)" arbitrary: f r d rule: less_induct)
  case less
  note k = \<open>0 < k\<close>
  obtain x f1 r1 where rd: "Read f r k = (x, f1, r1)" by (cases "Read f r k") auto
  from Read_prefix[OF rd, of X]
  consider (same) "Read f (extended X r) k = (x, f1, extended X r1)"
    | (starved) d0 where "x = Return (d0, Some ErrUnexpectedEOF)"
    | (short) d0 where "x = Return (d0, None)" "stream r1 = []" "0 < chunkRem f1" "\<not> rdone f1"
    by blast
  then show ?case
  proof cases
    case starved
    then show ?thesis using Copy_stop[OF k rd[unfolded starved]] by auto
  next
    case short
    have "Copy k f r = prepend d0 (Copy k f1 r1)"
      using Copy_step[OF k rd[unfolded short(1)]] .
    moreover have "Copy k f1 r1 = (Return ([], Some ErrUnexpectedEOF), f1, r1)"
      using Copy_stop[OF k Read_starved[OF short(4,3,2) k]] by simp
    ultimately show ?thesis by (simp add: prepend_Return)
  next
    case same
    show ?thesis
    proof (cases x)
      case Panic
      then have "Copy k f (extended X r) = (Panic, f1, extended X r1)"
        using same k by (subst Copy.simps) simp
      then show ?thesis using less.prems by simp
    next
      case (Return y)
      obtain d1 e where y: "y = (d1, e)" by (cases y)
      show ?thesis
      proof (cases e)
        case (Some er)
        have t: "Copy k f r = (Return (d1, if er = EOF then None else Some er), f1, r1)"
          using Copy_stop[OF k rd[unfolded Return y Some]] .
        have "Copy k f (extended X r) =
                (Return (d1, if er = EOF then None else Some er), f1, extended X r1)"
          using Copy_stop[OF k same[unfolded Return y Some]] .
        then show ?thesis using less.prems t by (auto split: if_splits)
      next
        case None
        have t: "Copy k f r = prepend d1 (Copy k f1 r1)"
          using Copy_step[OF k rd[unfolded Return y None]] .
        have fl: "Copy k f (extended X r) = prepend d1 (Copy k f1 (extended X r1))"
          using Copy_step[OF k same[unfolded Return y None]] .
        with less.prems obtain d2 where
          c2: "Copy k f1 (extended X r1) = (Return (d2, None), f', rf)" and d: "d = d1 @ d2"
          by (auto simp: prepend_def split: prod.splits outcome.splits)
        have "length (stream r1) < length (stream r)"
          using Read_progress[OF rd[unfolded Return y None] k] .
        from less.hyps[OF this k c2] show ?thesis using t d by (auto simp: prepend_Return)
      qed
    qed
  qed
qed

lemma Copy_keeps_rclosed: "Copy k f r = (x, f', r') \<Longrightarrow> rclosed r' = rclosed r"
proof (induction "length (stream r)" arbitrary: f r x f' r' rule: less_induct)
  case less
  show ?case
  proof (cases "k = 0")
    case True
    with less.prems show ?thesis by (simp add: Copy.simps)
  next
    case False
    then have k: "0 < k" by simp
    obtain y f1 r1 where rd: "Read f r k = (y, f1, r1)" by (cases "Read f r k") auto
    note c1 = Read_keeps_rclosed[OF rd]
    show ?thesis
    proof (cases "\<exists>d. y = Return (d, None)")
      case True
      then obtain d where y: "y = Return (d, None)" by blast
      obtain z f2 r2 where cp: "Copy k f1 r1 = (z, f2, r2)" by (cases "Copy k f1 r1") auto
      have "length (stream r1) < length (stream r)"
        using Read_progress[OF rd[unfolded y] k] .
      from less.hyps[OF this cp] have "rclosed r2 = rclosed r1" .
      moreover have "r' = r2"
        using less.prems Copy_step[OF k rd[unfolded y]] cp
        by (auto simp: prepend_def split: outcome.splits prod.splits)
      ultimately show ?thesis using c1 by simp
    next
      case False
      with less.prems k rd have "r' = r1"
        by (subst (asm) Copy.simps) (auto split: outcome.splits prod.splits option.splits)
      then show ?thesis using c1 by simp
    qed
  qed
qed

lemma Next_unfold:
  "ready r \<Longrightarrow> \<not> rclosed r \<Longrightarrow> ReadString (stream r) = ((jd, None), s') \<Longrightarrow>
   decFileHeader L (butlast jd) = Some h \<Longrightarrow> hPath h \<noteq> [NUL] \<Longrightarrow>
   Next L r = Next_entry h (r\<lparr>fr := None, err := None, ready := False, stream := s'\<rparr>)"
  by (simp add: Next_def Next_entry_def Let_def)

lemma Next_entry_prefix:
  assumes "Next_entry h (extended X r) = (Return b, rf)" and "b \<or> err rf = None"
  shows "(\<exists>rt. b \<and> Next_entry h r = (Return True, rt) \<and> rf = extended X rt)
       \<or> (\<exists>rt. Next_entry h r = (Return False, rt) \<and> err rt = Some ErrUnexpectedEOF)"
proof -
  define f where "f = \<lparr>rhdr = h, rdone = False, chunkRem = 0\<rparr>"
  define r1 where "r1 = r\<lparr>fr := Some f\<rparr>"
  have ex: "\<And>a r. (extended X r)\<lparr>fr := a\<rparr> = extended X (r\<lparr>fr := a\<rparr>)"
    by (simp add: extended_def)
  show ?thesis
  proof (cases "IsDir f")
    case False
    then have "Next_entry h r = (Return True, r1)"
      "Next_entry h (extended X r) = (Return True, extended X r1)"
      by (simp_all add: Next_entry_def Let_def f_def r1_def ex)
    then show ?thesis using assms by auto
  next
    case d: True
    obtain x f2 r2 where rd: "Read f r1 0 = (x, f2, r2)" by (cases "Read f r1 0") auto
    have nt_eq: "Next_entry h r =
       (case (x, f2, r2) of
          (Panic, f', r2) \<Rightarrow> (Panic, r2\<lparr>fr := Some f'\<rparr>)
        | (Return (d, None), f', r2) \<Rightarrow>
            (Return False, r2\<lparr>fr := None, err := Some (ErrDirBody (hPath h))\<rparr>)
        | (Return (d, Some e), f', r2) \<Rightarrow>
            if e \<noteq> EOF then (Return False, r2\<lparr>fr := None, err := Some e\<rparr>)
            else (Return True, r2\<lparr>fr := Some f'\<rparr>))"
      using d rd[symmetric] unfolding Next_entry_def Let_def f_def[symmetric] r1_def[symmetric]
      by simp
    have nf_eq: "Next_entry h (extended X r) =
       (case Read f (extended X r1) 0 of
          (Panic, f', r2) \<Rightarrow> (Panic, r2\<lparr>fr := Some f'\<rparr>)
        | (Return (d, None), f', r2) \<Rightarrow>
            (Return False, r2\<lparr>fr := None, err := Some (ErrDirBody (hPath h))\<rparr>)
        | (Return (d, Some e), f', r2) \<Rightarrow>
            if e \<noteq> EOF then (Return False, r2\<lparr>fr := None, err := Some e\<rparr>)
            else (Return True, r2\<lparr>fr := Some f'\<rparr>))"
      using d unfolding Next_entry_def Let_def f_def[symmetric] ex r1_def[symmetric]
      by simp
    from Read_prefix[OF rd, of X]
    consider (same) "Read f (extended X r1) 0 = (x, f2, extended X r2)"
      | (starved) d0 where "x = Return (d0, Some ErrUnexpectedEOF)"
      by auto
    then show ?thesis
    proof cases
      case starved
      then show ?thesis using nt_eq by simp
    next
      case same
      show ?thesis
        using assms nt_eq nf_eq[unfolded same]
        by (auto simp: ex split: outcome.splits option.splits if_splits)
    qed
  qed
qed

lemma Next_prefix:
  assumes "\<not> rclosed r" and "X \<noteq> []" and "Next L (extended X r) = (Return b, rf)"
    and "b \<or> err rf = None"
  shows "(\<exists>rt. b \<and> Next L r = (Return True, rt) \<and> rf = extended X rt)
       \<or> (\<exists>rt. Next L r = (Return False, rt) \<and> err rt = Some ErrUnexpectedEOF)"
proof (cases "ready r")
  case False
  then show ?thesis using assms by (auto simp: Next_def extended_def)
next
  case rdy: True
  show ?thesis
  proof (cases "NUL \<in> set (stream r)")
    case False
    then have "Next L r =
       (Return False, r\<lparr>fr := None, err := None, ready := False, stream := [],
                         err := Some ErrUnexpectedEOF\<rparr>)"
      using assms(1) rdy by (simp add: Next_def ReadString_def unexpected_def)
    then show ?thesis by simp
  next
    case n: True
    obtain jd s' where rs: "ReadString (stream r) = ((jd, None), s')"
      using n by (simp add: ReadString_def)
    have rsx: "ReadString (stream (extended X r)) = ((jd, None), s' @ X)"
      using ReadString_prefix[OF n, of X] rs by (simp add: extended_def)
    have px: "ready (extended X r)" "\<not> rclosed (extended X r)"
      using rdy assms(1) by (simp_all add: extended_def)
    show ?thesis
    proof (cases "decFileHeader L (butlast jd)")
      case None
      then show ?thesis using assms px rsx by (auto simp: Next_def)
    next
      case (Some h)
      show ?thesis
      proof (cases "hPath h = [NUL]")
        case True
        have "streamRead (s' @ X) 1 = ((take 1 (s' @ X), None), drop 1 (s' @ X))"
          using assms(2) by (simp add: streamRead_def)
        then show ?thesis using assms px rsx Some True
          by (auto simp: Next_def Let_def)
      next
        case nt: False
        let ?r1 = "r\<lparr>fr := None, err := None, ready := False, stream := s'\<rparr>"
        have t: "Next L r = Next_entry h ?r1"
          by (rule Next_unfold[OF rdy assms(1) rs Some nt])
        have "Next L (extended X r) =
              Next_entry h ((extended X r)\<lparr>fr := None, err := None, ready := False,
                                            stream := s' @ X\<rparr>)"
          by (rule Next_unfold[OF px rsx Some nt])
        also have "(extended X r)\<lparr>fr := None, err := None, ready := False, stream := s' @ X\<rparr>
                   = extended X ?r1"
          by (simp add: extended_def)
        finally have f: "Next_entry h (extended X ?r1) = (Return b, rf)"
          using assms(3) by simp
        from Next_entry_prefix[OF f assms(4)] show ?thesis using t by simp
      qed
    qed
  qed
qed

lemma ReadFiles_prefix:
  assumes "0 < k" and "\<not> rclosed r" and "X \<noteq> []"
    and "ReadFiles L k (extended X r) = (Return (res, None), rf)"
  shows "\<exists>res' rt. ReadFiles L k r = (Return (res', Some ErrUnexpectedEOF), rt)"
  using assms
proof (induction "length (stream r)" arbitrary: r res rf rule: less_induct)
  case less
  note k = \<open>0 < k\<close> and X = \<open>X \<noteq> []\<close>
  obtain xf rf1 where nf: "Next L (extended X r) = (xf, rf1)"
    by (cases "Next L (extended X r)") auto
  have full: "ReadFiles L k (extended X r) = (Return (res, None), rf)" by fact
  then obtain b where b: "xf = Return b"
    using nf by (subst (asm) ReadFiles.simps) (auto split: outcome.splits)
  have cond: "b \<or> err rf1 = None"
    using full nf b by (subst (asm) ReadFiles.simps) (auto simp: Err_def split: bool.splits)
  from Next_prefix[OF less.prems(2) X nf[unfolded b] cond]
  consider (fail) rt where "Next L r = (Return False, rt)" "err rt = Some ErrUnexpectedEOF"
    | (same) rt where "b" "Next L r = (Return True, rt)" "rf1 = extended X rt"
    by blast
  then show ?case
  proof cases
    case fail
    then show ?thesis by (subst ReadFiles.simps) (simp add: Err_def)
  next
    case same
    from Next_True_state[OF same(2)] obtain f where f: "fr rt = Some f" and c: "\<not> rclosed rt"
      by blast
    have fx: "fr (extended X rt) = Some f" using f by (simp add: extended_def)
    obtain y f' rf2 where cf: "Copy k f (extended X rt) = (y, f', rf2)"
      by (cases "Copy k f (extended X rt)") auto
    have ex: "\<And>a r. (extended X r)\<lparr>fr := a\<rparr> = extended X (r\<lparr>fr := a\<rparr>)"
      by (simp add: extended_def)
    from full nf b same fx cf obtain d res2 where y: "y = Return (d, None)"
      and rec: "ReadFiles L k (rf2\<lparr>fr := Some f'\<rparr>) = (Return (res2, None), rf)"
      by (subst (asm) ReadFiles.simps)
         (auto split: outcome.splits option.splits prod.splits)
    from Copy_prefix[OF k cf[unfolded y]]
    consider (cfail) d' f'' r'' where "Copy k f rt = (Return (d', Some ErrUnexpectedEOF), f'', r'')"
      | (csame) rt2 where "Copy k f rt = (Return (d, None), f', rt2)" "rf2 = extended X rt2"
      by blast
    then show ?thesis
    proof cases
      case cfail
      then show ?thesis using same(2) f by (subst ReadFiles.simps) simp
    next
      case csame
      have l: "length (stream (rt2\<lparr>fr := Some f'\<rparr>)) < length (stream r)"
        using Next_True_shorter[OF same(2)] Copy_le[OF csame(1)] by simp
      have c2: "\<not> rclosed (rt2\<lparr>fr := Some f'\<rparr>)"
        using Copy_keeps_rclosed[OF csame(1)] c by simp
      have "ReadFiles L k (extended X (rt2\<lparr>fr := Some f'\<rparr>)) = (Return (res2, None), rf)"
        using rec csame(2) by (simp add: ex)
      from less.hyps[OF l k c2 X this] obtain res' rt' where
        "ReadFiles L k (rt2\<lparr>fr := Some f'\<rparr>) = (Return (res', Some ErrUnexpectedEOF), rt')"
        by blast
      then show ?thesis using same(2) f csame(1) by (subst ReadFiles.simps) simp
    qed
  qed
qed

text \<open>
  Reading a stream cut anywhere after its cleartext header and before its end: the stream is
  \<open>header @ P @ Y\<close> with \<open>Y\<close> not empty, and \<open>header @ P\<close> is read.
\<close>

lemma Decode_cut:
  assumes "0 < k" and "list_all (entry_ok L) es" and "header_codec_ok L terminator"
    and "stream_codec_ok L sopts" and "Compression sopts = []"
    and "stream_bytes L es = P @ Y" and "Y \<noteq> []"
  shows "\<exists>res. Decode L k (stream_header_record L sopts @ P) = Return (res, Some ErrUnexpectedEOF)"
proof -
  define r where "r = \<lparr>ready = True, rclosed = False, stream = P, rcloser = None,
                        fr = None, err = None\<rparr>"
  have n: "NewReader L (stream_header_record L sopts @ P) = Inr r"
    unfolding r_def using assms by (intro NewReader_plain) auto
  have "fst (ReadFiles L k (extended Y r)) = Return (map expected es, None)"
    using assms by (intro ReadFiles_stream) (simp_all add: extended_def r_def)
  then obtain rf where "ReadFiles L k (extended Y r) = (Return (map expected es, None), rf)"
    by (cases "ReadFiles L k (extended Y r)") auto
  from ReadFiles_prefix[OF \<open>0 < k\<close> _ \<open>Y \<noteq> []\<close> this] obtain res' rt where
    "ReadFiles L k r = (Return (res', Some ErrUnexpectedEOF), rt)"
    by (auto simp: r_def)
  then show ?thesis using n by (simp add: Decode_def)
qed

lemma chunk_record_not_Nil: "chunk_record d \<noteq> []"
  by (simp add: chunk_record_def)

text \<open>
  A cut inside the cleartext stream header: \<open>NewReader\<close> passes on the \<open>io.EOF\<close> of
  \<open>ReadString\<close> unchanged.
\<close>

lemma Decode_short_header:
  assumes "stream_codec_ok L sopts" and "n < length (stream_header_record L sopts)"
  shows "Decode L k (take n (stream_header_record L sopts @ rest)) = Return ([], Some EOF)"
proof -
  let ?E = "encStreamHeader L \<lparr>hVersion = 0, hCompression = Compression sopts\<rparr>"
  have tk: "take n (stream_header_record L sopts @ rest) = take n ?E"
    using assms(2) by (simp add: stream_header_record_def)
  have "NUL \<notin> set (take n ?E)"
    using assms(1) by (auto simp: stream_codec_ok_def dest: in_set_takeD)
  then have "ReadString (take n (stream_header_record L sopts @ rest)) = ((take n ?E, Some EOF), [])"
    unfolding tk by (rule ReadString_no_delim)
  then show ?thesis
    by (simp only: Decode_def NewReader_def prod.case option.case sum.case)
qed

text \<open>
  A cut at or after the end of the cleartext stream header, in a stream that goes on: the
  framed bytes are \<open>P @ Y\<close> with \<open>Y\<close> not empty, and any prefix of \<open>header @ P\<close> that
  holds the header is read.
\<close>

lemma Decode_cut_prefix:
  assumes "0 < k" and "list_all (entry_ok L) es" and "header_codec_ok L terminator"
    and "stream_codec_ok L sopts" and "Compression sopts = []"
    and "stream_bytes L es = P @ Y" and "Y \<noteq> []"
    and "length (stream_header_record L sopts) \<le> n"
  shows "\<exists>res. Decode L k (take n (stream_header_record L sopts @ P))
               = Return (res, Some ErrUnexpectedEOF)"
proof -
  let ?H = "stream_header_record L sopts"
  define m where "m = n - length ?H"
  have t: "take n (?H @ P) = ?H @ take m P" using assms(8) by (simp add: m_def)
  have "stream_bytes L es = take m P @ (drop m P @ Y)" using assms(6) by simp
  moreover have "drop m P @ Y \<noteq> []" using assms(7) by simp
  ultimately have "\<exists>res. Decode L k (?H @ take m P) = Return (res, Some ErrUnexpectedEOF)"
    using assms(1-5) by (intro Decode_cut[where es = es and Y = "drop m P @ Y"])
  then show ?thesis unfolding t .
qed

text \<open>
  Every proper prefix of a well-formed uncompressed stream fails to decode: with
  \<open>io.ErrUnexpectedEOF\<close> when the cut is at or after the end of the cleartext stream
  header, and with \<open>io.EOF\<close> when the cut is inside the stream header.
\<close>

lemma Decode_truncated:
  assumes "0 < k" and "list_all (entry_ok L) es" and "header_codec_ok L terminator"
    and "stream_codec_ok L sopts" and "Compression sopts = []"
    and "n < length (stream_header_record L sopts @ stream_bytes L es)"
  shows "Encode L sopts es = Inr (stream_header_record L sopts @ stream_bytes L es)"
    and "length (stream_header_record L sopts) \<le> n \<Longrightarrow>
         \<exists>res. Decode L k (take n (stream_header_record L sopts @ stream_bytes L es))
                = Return (res, Some ErrUnexpectedEOF)"
    and "n < length (stream_header_record L sopts) \<Longrightarrow>
         Decode L k (take n (stream_header_record L sopts @ stream_bytes L es))
                = Return ([], Some EOF)"
proof -
  let ?H = "stream_header_record L sopts" and ?B = "stream_bytes L es"
  show "Encode L sopts es = Inr (?H @ ?B)"
    using assms entry_ok_path by (intro Encode_plain) auto
  {
    assume h: "length ?H \<le> n"
    define m where "m = n - length ?H"
    have m: "m < length ?B" using assms(6) h by (simp add: m_def)
    have t: "take n (?H @ ?B) = ?H @ take m ?B" using h by (simp add: m_def)
    have "?B = take m ?B @ drop m ?B" by simp
    moreover have "drop m ?B \<noteq> []" using m by simp
    ultimately have "\<exists>res. Decode L k (?H @ take m ?B) = Return (res, Some ErrUnexpectedEOF)"
      using assms(1-5) by (intro Decode_cut[where es = es and Y = "drop m ?B"]) simp_all
    then show "\<exists>res. Decode L k (take n (?H @ ?B)) = Return (res, Some ErrUnexpectedEOF)"
      unfolding t .
  }
  show "n < length ?H \<Longrightarrow> Decode L k (take n (?H @ ?B)) = Return ([], Some EOF)"
    using assms(4) by (rule Decode_short_header)
qed

text \<open>
  Claim C2 fails on the code for a cut inside the cleartext stream header: \<open>NewReader\<close>
  returns the \<open>io.EOF\<close> of \<open>ReadString\<close> as it is, where \<open>Next\<close> and \<open>Read\<close> turn it
  into \<open>io.ErrUnexpectedEOF\<close>. Here the stream of the two example entries is cut after 5
  bytes.
\<close>

theorem C2_cut_in_stream_header:
  "\<exists>bytes. Encode refLib ex_plain ex_entries = Inr bytes \<and> 5 < length bytes
     \<and> NewReader refLib (take 5 bytes) = Inl EOF
     \<and> Decode refLib 4 (take 5 bytes) = Return ([], Some EOF)"
proof -
  let ?H = "stream_header_record refLib ex_plain" and ?B = "stream_bytes refLib ex_entries"
  have e: "Encode refLib ex_plain ex_entries = Inr (?H @ ?B)"
    by (intro Encode_plain) (simp_all add: ex_plain_def ex_entries_def)
  have h: "?H = ''{'' @ [DQ] @ ''version'' @ [DQ] @ '':0}'' @ [CHR 0x0A, NUL]"
    by (simp add: stream_header_record_def refLib_def refEncStreamHeader_def ex_plain_def
        Itoa_def digits.simps digit_def)
  have t: "take 5 (?H @ ?B) = ''{'' @ [DQ] @ ''ver''" by (simp add: h)
  have l: "5 < length (?H @ ?B)" by (simp add: h)
  have n: "NewReader refLib (take 5 (?H @ ?B)) = Inl EOF"
    unfolding t by (simp add: NewReader_def ReadString_def)
  then have d: "Decode refLib 4 (take 5 (?H @ ?B)) = Return ([], Some EOF)"
    by (simp only: Decode_def sum.case)
  show ?thesis using e l n d by blast
qed

text \<open>
  A \<open>Writer.Close\<close> that interrupts an entry. After \<open>NewWriter\<close> without compression, any
  well-formed entries, \<open>File\<close> and any \<open>Write\<close> calls on the open entry, \<open>Close\<close> returns
  \<open>ErrWriteInterrupted\<close> and neither writes nor flushes, so that no terminator header is
  written and the sink holds what left the buffer before: a prefix of the bytes written, and
  nothing at all when the bytes written fit in the buffer. Every prefix of the bytes written
  fails to decode, never ending cleanly: with \<open>io.ErrUnexpectedEOF\<close> when it holds the
  cleartext stream header, and with the \<open>io.EOF\<close> of \<open>NewReader\<close> when it does not.
\<close>

lemma interrupted_close:
  assumes "0 < k" and "list_all (entry_ok L) es"
    and "entry_ok L \<lparr>ePath = path, eDir = False, eWrites = ds, eOpts = opts\<rparr>"
    and "header_codec_ok L terminator" and "stream_codec_ok L sopts"
    and "Compression sopts = []"
  shows "\<exists>wr0 wr1 fw wr2 fw' wr3.
          NewWriter L sopts = Inr wr0 \<and> WriteEntries L wr0 es = (None, wr1) \<and>
          File wr1 path opts = (Inr fw, wr2) \<and> WriteAll L fw wr2 ds = (None, fw', wr3) \<and>
          hdr fw = \<lparr>hPath = path, hUser = User opts, hGroup = Group opts,
                    hMode = Permissions opts\<rparr> \<and>
          Close L wr3 = (Some ErrWriteInterrupted, wr3\<lparr>closed := True\<rparr>) \<and>
          w wr3 = stream_header_record L sopts @ concat (map (entry_bytes L) es)
                  @ (if ds = [] then [] else header_record L (hdr fw))
                  @ concat (map chunk_record (filter (\<lambda>d. d \<noteq> []) ds)) \<and>
          sink L (wr3\<lparr>closed := True\<rparr>) = take (length (w wr3) - held wr3) (w wr3) \<and>
          (length (w wr3) \<le> bufSize \<longrightarrow> held wr3 = length (w wr3)) \<and>
          (\<forall>n. (length (stream_header_record L sopts) \<le> n \<longrightarrow>
                  (\<exists>res. Decode L k (take n (w wr3)) = Return (res, Some ErrUnexpectedEOF)))
             \<and> (n < length (stream_header_record L sopts) \<longrightarrow>
                  Decode L k (take n (w wr3)) = Return ([], Some EOF)))"
proof -
  define e where "e = \<lparr>ePath = path, eDir = False, eWrites = ds, eOpts = opts\<rparr>"
  define H where "H = stream_header_record L sopts"
  define wr0 where "wr0 = emit \<lparr>curFile = 0, writing = False, w = [], held = 0, closer = None,
                               closed = False, pre = []\<rparr>
                            [encStreamHeader L \<lparr>hVersion = 0, hCompression = Compression sopts\<rparr>, [NUL]]"
  have nw: "NewWriter L sopts = Inr wr0"
    unfolding wr0_def using assms(6) by (rule NewWriter_plain)
  have w0: "w wr0 = H" "\<not> closed wr0" "\<not> writing wr0" "closer wr0 = None" "pre wr0 = []"
    by (simp_all add: wr0_def H_def stream_header_record_def)
  have h0: "length H \<le> bufSize \<Longrightarrow> held wr0 = length (w wr0)"
    unfolding wr0_def
    by (subst emit_small) (simp_all add: H_def stream_header_record_def)
  from WriteEntries_ok[OF w0(2,3) entry_ok_path[OF assms(2)], of L]
  obtain wr1 where 1: "WriteEntries L wr0 es = (None, wr1)"
    "w wr1 = w wr0 @ concat (map (entry_bytes L) es)" "\<not> closed wr1" "\<not> writing wr1"
    "closer wr1 = closer wr0" "pre wr1 = pre wr0"
    "held wr0 = length (w wr0) \<and> length (w wr1) \<le> bufSize \<longrightarrow> held wr1 = length (w wr1)"
    by blast
  define wr2 where "wr2 = wr1\<lparr>writing := True, curFile := curFile wr1 + 1\<rparr>"
  define fw where "fw = \<lparr>fileNo = curFile wr1 + 1, started = False, hdr = header_of e\<rparr>"
  have f: "File wr1 path opts = (Inr fw, wr2)"
    using 1 by (simp add: File_def fw_def wr2_def header_of_def e_def)
  have hf: "hdr fw = \<lparr>hPath = path, hUser = User opts, hGroup = Group opts,
                       hMode = Permissions opts\<rparr>"
    by (simp add: fw_def header_of_def e_def)
  have pre2: "\<not> closed wr2" "writing wr2" "fileNo fw = curFile wr2"
    "started fw \<or> NUL \<notin> set (hPath (hdr fw))"
    using 1 assms(3) by (simp_all add: wr2_def fw_def header_of_def e_def entry_ok_def)
  define fw' where "fw' = fw\<lparr>started := started fw \<or> ds \<noteq> []\<rparr>"
  define qs where "qs = (if started fw \<or> ds = [] then [] else header_writes L (hdr fw))
                        @ concat (map chunk_writes (filter (\<lambda>d. d \<noteq> []) ds))"
  define Q where "Q = (if ds = [] then [] else header_record L (hdr fw))
                      @ concat (map chunk_record (filter (\<lambda>d. d \<noteq> []) ds))"
  define wr3 where "wr3 = emit wr2 qs"
  have wa: "WriteAll L fw wr2 ds = (None, fw', wr3)"
    unfolding fw'_def wr3_def qs_def by (rule WriteAll_ok[OF pre2])
  have cq: "concat qs = Q"
    by (simp add: qs_def Q_def fw_def concat_chunk_writes_map)
  have cl: "Close L wr3 = (Some ErrWriteInterrupted, wr3\<lparr>closed := True\<rparr>)"
    using pre2 by (simp add: Close_def wr3_def)
  define P where "P = concat (map (entry_bytes L) es) @ Q"
  define Y where "Y = (if ds = [] then header_record L (header_of e) else [])
                      @ chunk_record [] @ header_record L terminator"
  have w3: "w wr3 = H @ P" "pre wr3 = []" "closer wr3 = None"
    using 1 w0 by (simp_all add: wr3_def wr2_def P_def cq)
  have sk: "sink L (wr3\<lparr>closed := True\<rparr>) = take (length (w wr3) - held wr3) (w wr3)"
    using w3 by (simp add: sink_def delivered_def)
  have small: "held wr3 = length (w wr3)" if "length (w wr3) \<le> bufSize"
  proof -
    from that w3 1(2) w0(1) have l: "length H \<le> bufSize" "length (w wr1) \<le> bufSize"
      by (simp_all add: P_def)
    from h0[OF l(1)] 1(7) l(2) have "held wr1 = length (w wr1)" by simp
    then have "held wr2 = length (w wr2)" by (simp add: wr2_def)
    moreover have "length (w wr2) + length (concat qs) \<le> bufSize"
      using that by (simp add: wr3_def)
    ultimately show ?thesis unfolding wr3_def by (subst emit_small) simp_all
  qed
  have sb: "stream_bytes L (es @ [e]) = P @ Y"
    by (simp add: stream_bytes_def entry_bytes_def body_bytes_def P_def Q_def Y_def e_def
        fw_def)
  have Y: "Y \<noteq> []" using chunk_record_not_Nil[of "[]"] by (simp add: Y_def)
  have ok: "list_all (entry_ok L) (es @ [e])" using assms(2,3) by (simp add: e_def)
  have long: "\<exists>res. Decode L k (take n (H @ P)) = Return (res, Some ErrUnexpectedEOF)"
    if "length H \<le> n" for n
    using Decode_cut_prefix[OF assms(1) ok assms(4,5,6) sb Y] that unfolding H_def by blast
  have short: "Decode L k (take n (H @ P)) = Return ([], Some EOF)" if "n < length H" for n
    using Decode_short_header[OF assms(5), of n k P] that unfolding H_def by blast
  have wq: "w wr3 = stream_header_record L sopts @ concat (map (entry_bytes L) es)
                  @ (if ds = [] then [] else header_record L (hdr fw))
                  @ concat (map chunk_record (filter (\<lambda>d. d \<noteq> []) ds))"
    using w3(1) by (simp add: H_def P_def Q_def)
  have all: "\<forall>n. (length (stream_header_record L sopts) \<le> n \<longrightarrow>
                  (\<exists>res. Decode L k (take n (w wr3)) = Return (res, Some ErrUnexpectedEOF)))
             \<and> (n < length (stream_header_record L sopts) \<longrightarrow>
                  Decode L k (take n (w wr3)) = Return ([], Some EOF))"
    using long short unfolding w3(1) H_def by blast
  have sm: "length (w wr3) \<le> bufSize \<longrightarrow> held wr3 = length (w wr3)"
    using small by blast
  show ?thesis
    using nw 1(1) f wa hf cl wq sk sm all
    by (intro exI[of _ wr0] exI[of _ wr1] exI[of _ fw] exI[of _ wr2] exI[of _ fw']
        exI[of _ wr3] conjI) assumption+
qed

text \<open>
  Claim C7 fails on the code for a stream that fits in the buffer of the buffered writer
  (4096 bytes). \<open>Writer.Close\<close> with an entry open returns \<open>ErrWriteInterrupted\<close> and
  writes no terminator header, but it returns before it flushes: none of the bytes written
  has reached the sink. On the empty sink \<open>NewReader\<close> returns the \<open>io.EOF\<close> of
  \<open>ReadString\<close> as it is, where \<open>Next\<close> and \<open>Read\<close> turn it into
  \<open>io.ErrUnexpectedEOF\<close>: the Reader ends in \<open>io.EOF\<close>, not in a truncation error. Here:
  \<open>NewWriter\<close> without compression, the two example entries, \<open>File\<close>, one \<open>Write\<close>,
  \<open>Close\<close>.
\<close>

theorem C7_interrupted_sink_empty:
  "\<exists>wr0 wr1 fw wr2 fw' wr3.
     NewWriter refLib ex_plain = Inr wr0 \<and> WriteEntries refLib wr0 ex_entries = (None, wr1) \<and>
     File wr1 ''b.txt'' ex_opts = (Inr fw, wr2) \<and>
     WriteAll refLib fw wr2 [''abc''] = (None, fw', wr3) \<and>
     Close refLib wr3 = (Some ErrWriteInterrupted, wr3\<lparr>closed := True\<rparr>) \<and>
     w wr3 = stream_header_record refLib ex_plain @ concat (map (entry_bytes refLib) ex_entries)
             @ header_record refLib \<lparr>hPath = ''b.txt'', hUser = ''usr'', hGroup = ''grp'',
                                     hMode = 420\<rparr>
             @ chunk_record ''abc'' \<and>
     held wr3 = length (w wr3) \<and>
     sink refLib (wr3\<lparr>closed := True\<rparr>) = [] \<and>
     NewReader refLib (sink refLib (wr3\<lparr>closed := True\<rparr>)) = Inl EOF \<and>
     Decode refLib 4 (sink refLib (wr3\<lparr>closed := True\<rparr>)) = Return ([], Some EOF)"
proof -
  have k: "0 < (4::nat)" by simp
  have c: "list_all (\<lambda>e. header_codec_ok refLib (header_of e)) ex_entries" by code_simp
  have "list_all (\<lambda>e. NUL \<notin> set (ePath e)
     \<and> (eDir e \<or> \<not> IsDirMode (Permissions (eOpts e)))
     \<and> list_all (\<lambda>d. length d < 2 ^ 63) (eWrites e)) ex_entries"
    by (simp add: ex_entries_def ex_opts_def IsDirMode_def ModeDir_def)
  with c have e: "list_all (entry_ok refLib) ex_entries"
    by (simp add: entry_ok_def ex_entries_def)
  have c1: "header_codec_ok refLib
              (header_of \<lparr>ePath = ''b.txt'', eDir = False, eWrites = [''abc''], eOpts = ex_opts\<rparr>)"
    by code_simp
  then have o: "entry_ok refLib
                  \<lparr>ePath = ''b.txt'', eDir = False, eWrites = [''abc''], eOpts = ex_opts\<rparr>"
    by (simp add: entry_ok_def ex_opts_def IsDirMode_def ModeDir_def)
  have t: "header_codec_ok refLib terminator" by code_simp
  have p: "stream_codec_ok refLib ex_plain" by code_simp
  have z: "Compression ex_plain = []" by (simp add: ex_plain_def)
  have len: "length (stream_header_record refLib ex_plain
                     @ concat (map (entry_bytes refLib) ex_entries)
                     @ header_record refLib \<lparr>hPath = ''b.txt'', hUser = ''usr'', hGroup = ''grp'',
                                             hMode = 420\<rparr>
                     @ chunk_record ''abc'') \<le> bufSize"
    by code_simp
  from interrupted_close[OF k e o t p z]
  obtain wr0 wr1 fw wr2 fw' wr3 where r:
    "NewWriter refLib ex_plain = Inr wr0" "WriteEntries refLib wr0 ex_entries = (None, wr1)"
    "File wr1 ''b.txt'' ex_opts = (Inr fw, wr2)"
    "WriteAll refLib fw wr2 [''abc''] = (None, fw', wr3)"
    "hdr fw = \<lparr>hPath = ''b.txt'', hUser = User ex_opts, hGroup = Group ex_opts,
               hMode = Permissions ex_opts\<rparr>"
    "Close refLib wr3 = (Some ErrWriteInterrupted, wr3\<lparr>closed := True\<rparr>)"
    "w wr3 = stream_header_record refLib ex_plain @ concat (map (entry_bytes refLib) ex_entries)
             @ (if [''abc''] = [] then [] else header_record refLib (hdr fw))
             @ concat (map chunk_record (filter (\<lambda>d. d \<noteq> []) [''abc'']))"
    "sink refLib (wr3\<lparr>closed := True\<rparr>) = take (length (w wr3) - held wr3) (w wr3)"
    "length (w wr3) \<le> bufSize \<longrightarrow> held wr3 = length (w wr3)"
    by (elim exE conjE) (rule that; assumption)
  have w3: "w wr3 = stream_header_record refLib ex_plain
                    @ concat (map (entry_bytes refLib) ex_entries)
                    @ header_record refLib \<lparr>hPath = ''b.txt'', hUser = ''usr'', hGroup = ''grp'',
                                            hMode = 420\<rparr>
                    @ chunk_record ''abc''"
    using r(7) r(5) by (simp add: ex_opts_def)
  have h: "held wr3 = length (w wr3)" using r(9) len unfolding w3 by simp
  have s: "sink refLib (wr3\<lparr>closed := True\<rparr>) = []" using r(8) h by simp
  have n: "NewReader refLib [] = Inl EOF" by (simp add: NewReader_def ReadString_def)
  then have d: "Decode refLib 4 [] = Return ([], Some EOF)"
    by (simp only: Decode_def sum.case)
  show ?thesis
    using r(1-4,6) w3 h s n d
    by (intro exI[of _ wr0] exI[of _ wr1] exI[of _ fw] exI[of _ wr2] exI[of _ fw']
        exI[of _ wr3]) simp
qed

end
